theory Spec2Isabelle
  imports Main "HOL-Library.Word"
begin

section \<open>v8pp class registry: the data model of \<^verbatim>\<open>v8pp/class.hpp\<close>\<close>

text \<open>
  Addresses. A native object pointer (\<^verbatim>\<open>void*\<close>, \<^verbatim>\<open>T*\<close>) and a descriptor pointer
  (\<^verbatim>\<open>class_info*\<close>) are natural numbers; \<open>0\<close> is \<^verbatim>\<open>nullptr\<close>. A JavaScript object
  is named by an object identity; a \<^verbatim>\<open>v8::Local<v8::Object>\<close> is an optional
  identity, \<open>None\<close> being the empty handle. \<^verbatim>\<open>type_index\<close> is \<^verbatim>\<open>unsigned\<close>.
\<close>

type_synonym addr = nat
type_synonym ref = nat
type_synonym obj_id = nat
type_synonym local_handle = "obj_id option"
type_synonym type_index = "32 word"

text \<open>\<^verbatim>\<open>using cast_function = void* (*)(void* ptr)\<close>\<close>

type_synonym cast_function = "addr \<Rightarrow> addr"

text \<open>
  \<^verbatim>\<open>struct base_class_info { class_info* info; cast_function cast; }\<close>. The field
  \<^verbatim>\<open>cast\<close> is called \<open>base_cast\<close> here, the name \<open>cast\<close> being the member function
  of \<^verbatim>\<open>class_info\<close>.
\<close>

record base_class_info =
  info :: ref
  base_cast :: cast_function

text \<open>
  \<^verbatim>\<open>class class_info\<close>: its four data members, \<^verbatim>\<open>type_\<close>, \<^verbatim>\<open>bases_\<close>,
  \<^verbatim>\<open>derivatives_\<close> and \<^verbatim>\<open>objects_\<close> (a name cannot end with an underscore here, so
  each carries a prime). \<^verbatim>\<open>objects_\<close> is the
  \<^verbatim>\<open>unordered_map<void*, persistent<v8::Object>>\<close>; a persistent handle may be empty.
\<close>

record class_info =
  type_' :: type_index
  bases_' :: "base_class_info list"
  derivatives_' :: "ref list"
  objects_' :: "addr \<rightharpoonup> local_handle"

text \<open>
  The C++ heap of descriptors: which addresses hold a live \<^verbatim>\<open>class_info\<close> (or an object
  of a class derived from it, hence the record scheme). Dereferencing \<^verbatim>\<open>nullptr\<close> or
  an address that holds no descriptor is undefined behaviour in the source; the model
  makes it the outcome \<open>BadPointer\<close>.
\<close>

type_synonym 'a heap = "ref \<rightharpoonup> 'a class_info_scheme"

definition deref :: "'a heap \<Rightarrow> ref \<Rightarrow> 'a class_info_scheme option" where
  "deref h r = (if r = 0 then None else h r)"

text \<open>
  The outcome of a call that recurses through the heap. The recursion of the source is
  bounded by the call stack only; the model bounds its depth by a fuel argument, and
  \<open>OutOfFuel\<close> says that the recursion went deeper than the fuel given. A call returns
  in the source exactly when some fuel gives \<open>Returns\<close>.
\<close>

datatype 'a outcome = OutOfFuel | BadPointer | Returns 'a

subsection \<open>\<^verbatim>\<open>class_info::cast\<close>\<close>

text \<open>
  \<^verbatim>\<open>bool cast(void*& ptr, type_index type) const\<close>. The result pairs the returned
  \<^verbatim>\<open>bool\<close> with the value of the in/out argument \<^verbatim>\<open>ptr\<close> when the call returns.

  \<open>direct_parent\<close> is the first loop (``fast way - search a direct parent''): it
  returns \<open>(True, base.cast(ptr))\<close> at the first base whose descriptor has the requested
  type, and \<open>(False, ptr)\<close> when the loop ends without a match.
\<close>

fun direct_parent :: "'a heap \<Rightarrow> base_class_info list \<Rightarrow> addr \<Rightarrow> type_index \<Rightarrow> (bool \<times> addr) outcome" where
  "direct_parent h [] ptr t = Returns (False, ptr)"
| "direct_parent h (base # bases) ptr t =
     (case deref h (info base) of
        None \<Rightarrow> BadPointer
      | Some bi \<Rightarrow>
          if type_' bi = t then Returns (True, base_cast base ptr)
          else direct_parent h bases ptr t)"

text \<open>
  \<open>cast\<close> is the member function, called on the descriptor at address \<open>this\<close>;
  \<open>walk\<close> is its second loop (``slower way - walk on hierarhy''), which calls \<open>cast\<close>
  on the descriptor of each base with the local \<^verbatim>\<open>p = base.cast(ptr)\<close>, and assigns
  \<^verbatim>\<open>ptr = p\<close> only when that call returned \<^verbatim>\<open>true\<close>.
\<close>

fun cast :: "nat \<Rightarrow> 'a heap \<Rightarrow> ref \<Rightarrow> addr \<Rightarrow> type_index \<Rightarrow> (bool \<times> addr) outcome"
  and walk :: "nat \<Rightarrow> 'a heap \<Rightarrow> base_class_info list \<Rightarrow> addr \<Rightarrow> type_index \<Rightarrow> (bool \<times> addr) outcome"
where
  "cast 0 h this ptr t = OutOfFuel"
| "cast (Suc n) h this ptr t =
     (case deref h this of
        None \<Rightarrow> BadPointer
      | Some ci \<Rightarrow>
          if t = type_' ci then Returns (True, ptr)
          else
            (case direct_parent h (bases_' ci) ptr t of
               Returns (found, ptr') \<Rightarrow>
                 if found then Returns (True, ptr') else walk n h (bases_' ci) ptr' t
             | BadPointer \<Rightarrow> BadPointer
             | OutOfFuel \<Rightarrow> OutOfFuel))"
| "walk n h [] ptr t = Returns (False, ptr)"
| "walk n h (base # bases) ptr t =
     (case cast n h (info base) (base_cast base ptr) t of
        Returns (found, p) \<Rightarrow>
          if found then Returns (True, p) else walk n h bases ptr t
      | BadPointer \<Rightarrow> BadPointer
      | OutOfFuel \<Rightarrow> OutOfFuel)"

subsection \<open>Chains of BaseLinks\<close>

text \<open>
  \<open>reaches h r bs t\<close>: starting at the descriptor at \<open>r\<close> and following the BaseLinks
  \<open>bs\<close> in turn (each one a registered base of the descriptor reached so far) ends at a
  descriptor whose type is \<open>t\<close>. The address adjusted along the chain is
  \<open>fold base_cast bs ptr\<close>: the adjustment of every link applied once, the link nearest
  to the derived type first.
\<close>

fun reaches :: "'a heap \<Rightarrow> ref \<Rightarrow> base_class_info list \<Rightarrow> type_index \<Rightarrow> bool" where
  "reaches h r [] t = (case deref h r of None \<Rightarrow> False | Some ci \<Rightarrow> type_' ci = t)"
| "reaches h r (b # bs) t =
     (case deref h r of
        None \<Rightarrow> False
      | Some ci \<Rightarrow> b \<in> set (bases_' ci) \<and> reaches h (info b) bs t)"

text \<open>
  \<open>depth_le n h r\<close>: every chain of BaseLinks that starts at \<open>r\<close> has fewer than \<open>n\<close>
  links and meets live descriptors only.
\<close>

fun depth_le :: "nat \<Rightarrow> 'a heap \<Rightarrow> ref \<Rightarrow> bool" where
  "depth_le 0 h r = False"
| "depth_le (Suc n) h r =
     (case deref h r of
        None \<Rightarrow> False
      | Some ci \<Rightarrow> list_all (\<lambda>b. depth_le n h (info b)) (bases_' ci))"

text \<open>
  \<open>selected h r bs t\<close>: \<open>bs\<close> is the chain of BaseLinks from the descriptor at \<open>r\<close> to the
  type \<open>t\<close> that the order of registration selects. The chain is empty where the
  descriptor has the type. Otherwise, where a direct base has the type, the chain is the
  link to the first such base in registration order. Otherwise its first link is the
  first base in registration order from which the type is reachable, and its rest is the
  chain selected from that base.
\<close>

fun selected :: "'a heap \<Rightarrow> ref \<Rightarrow> base_class_info list \<Rightarrow> type_index \<Rightarrow> bool" where
  "selected h r [] t = (case deref h r of None \<Rightarrow> False | Some ci \<Rightarrow> type_' ci = t)"
| "selected h r (b # bs) t =
     (case deref h r of
        None \<Rightarrow> False
      | Some ci \<Rightarrow>
          type_' ci \<noteq> t \<and>
          (case find (\<lambda>d. map_option type_' (deref h (info d)) = Some t) (bases_' ci) of
             Some d \<Rightarrow> b = d \<and> bs = []
           | None \<Rightarrow>
               (\<exists>pre post. bases_' ci = pre @ b # post \<and>
                  (\<forall>x \<in> set pre. \<forall>c. \<not> reaches h (info x) c t)) \<and>
               selected h (info b) bs t))"

text \<open>
  The BaseLinks of a heap as a relation from derived to base; a heap is \<open>closed\<close> when
  every BaseLink and every derivative back-reference points to a live descriptor.
\<close>

definition base_rel :: "'a heap \<Rightarrow> (ref \<times> ref) set" where
  "base_rel h = {(r, r'). \<exists>ci b. deref h r = Some ci \<and> b \<in> set (bases_' ci) \<and> r' = info b}"

definition closed :: "'a heap \<Rightarrow> bool" where
  "closed h =
     (\<forall>r ci. deref h r = Some ci \<longrightarrow>
        (\<forall>b \<in> set (bases_' ci). deref h (info b) \<noteq> None) \<and>
        (\<forall>d \<in> set (derivatives_' ci). deref h d \<noteq> None))"

subsection \<open>Operations that change a descriptor\<close>

text \<open>
  How a call that changes the heap completes: it returns a value and leaves a state;
  or a \<^verbatim>\<open>std::runtime_error\<close> with the given message leaves the call, the state being
  what the call had made of it by then; or an \<^verbatim>\<open>assert\<close> fails and the process is
  aborted (the text is the message of the assertion); or the call dereferences a pointer
  that holds no descriptor.

  \<^verbatim>\<open>assert\<close> is compiled out when \<^verbatim>\<open>NDEBUG\<close> is defined: every operation with an
  assertion takes the build mode as its first argument.
\<close>

datatype ('v, 's) completion = Returned 'v 's | Thrown string 's | Aborted string | Undefined

text \<open>\<^verbatim>\<open>class_info(type_index type) : type_(type)\<close>\<close>

definition new_class_info :: "type_index \<Rightarrow> class_info" where
  "new_class_info t = \<lparr>type_' = t, bases_' = [], derivatives_' = [], objects_' = Map.empty\<rparr>"

text \<open>
  \<^verbatim>\<open>void add_base(class_info* info, cast_function cast)\<close>: \<^verbatim>\<open>std::find_if\<close> over
  \<^verbatim>\<open>bases_\<close>; on a match \<^verbatim>\<open>assert(false && "duplicated inheritance")\<close>, then
  \<^verbatim>\<open>throw std::runtime_error("duplicated base class")\<close>; otherwise two
  \<^verbatim>\<open>emplace_back\<close>, the second one through the pointer \<^verbatim>\<open>info\<close>.
\<close>

definition add_base :: "bool \<Rightarrow> 'a heap \<Rightarrow> ref \<Rightarrow> ref \<Rightarrow> cast_function \<Rightarrow> (unit, 'a heap) completion" where
  "add_base NDEBUG h this info' cast' =
     (case deref h this of
        None \<Rightarrow> Undefined
      | Some ci \<Rightarrow>
          (case find (\<lambda>base. info base = info') (bases_' ci) of
             Some it \<Rightarrow>
               if NDEBUG then Thrown ''duplicated base class'' h
               else Aborted ''duplicated inheritance''
           | None \<Rightarrow>
               (let h1 = h(this \<mapsto> ci\<lparr>bases_' := bases_' ci @ [\<lparr>info = info', base_cast = cast'\<rparr>]\<rparr>)
                in case deref h1 info' of
                     None \<Rightarrow> Undefined
                   | Some bi \<Rightarrow>
                       Returned () (h1(info' \<mapsto> bi\<lparr>derivatives_' := derivatives_' bi @ [this]\<rparr>)))))"

text \<open>
  \<^verbatim>\<open>void add_object(v8::Isolate*, T* object, v8::Local<v8::Object> handle)\<close>:
  \<^verbatim>\<open>assert(objects_.find(object) == objects_.end() && "duplicate object")\<close>, then
  \<^verbatim>\<open>objects_.emplace(object, ...)\<close>, which inserts nothing when the key is present.
\<close>

definition add_object :: "bool \<Rightarrow> 'a heap \<Rightarrow> ref \<Rightarrow> addr \<Rightarrow> local_handle \<Rightarrow> (unit, 'a heap) completion" where
  "add_object NDEBUG h this object handle =
     (case deref h this of
        None \<Rightarrow> Undefined
      | Some ci \<Rightarrow>
          if \<not> NDEBUG \<and> objects_' ci object \<noteq> None then Aborted ''duplicate object''
          else
            (case objects_' ci object of
               None \<Rightarrow> Returned () (h(this \<mapsto> ci\<lparr>objects_' := (objects_' ci)(object \<mapsto> handle)\<rparr>))
             | Some present \<Rightarrow> Returned () h))"

text \<open>
  \<^verbatim>\<open>void remove_object(v8::Isolate*, T* object, void (*destroy)(v8::Isolate*, T*))\<close>:
  \<^verbatim>\<open>assert(... != objects_.end() && "no object")\<close>, then, under
  \<^verbatim>\<open>if (it != objects_.end())\<close>, the handle is reset, \<^verbatim>\<open>destroy\<close> is called when it is
  not null, and the entry is erased. The argument \<open>destroy\<close> says whether the function
  pointer is non-null; the value returned is the list of addresses \<^verbatim>\<open>destroy\<close> was
  called with.
\<close>

definition remove_object :: "bool \<Rightarrow> 'a heap \<Rightarrow> ref \<Rightarrow> addr \<Rightarrow> bool \<Rightarrow> (addr list, 'a heap) completion" where
  "remove_object NDEBUG h this object destroy =
     (case deref h this of
        None \<Rightarrow> Undefined
      | Some ci \<Rightarrow>
          if \<not> NDEBUG \<and> objects_' ci object = None then Aborted ''no object''
          else
            (case objects_' ci object of
               None \<Rightarrow> Returned [] h
             | Some it \<Rightarrow>
                 Returned (if destroy then [object] else [])
                   (h(this \<mapsto> ci\<lparr>objects_' := (objects_' ci)(object := None)\<rparr>))))"

subsection \<open>\<^verbatim>\<open>class_info::find_object\<close>\<close>

text \<open>
  Modelled from the spec: \<^verbatim>\<open>to_local\<close> and \<^verbatim>\<open>persistent\<close> are declared in
  \<^verbatim>\<open>v8pp/persistent.hpp\<close>, which is not among the sources. The spec has the registry
  map an address to ``its persistent scripting handle'' and \<^verbatim>\<open>find\<close> return ``the
  handle for an exact match'': the local handle made from a persistent one names the
  same object, and is empty when the persistent handle is.
\<close>

definition to_local :: "local_handle \<Rightarrow> local_handle" where
  "to_local persistent = persistent"

text \<open>
  \<^verbatim>\<open>v8::Local<v8::Object> find_object(v8::Isolate*, void const* object) const\<close>: the own
  map first; then the loop over \<^verbatim>\<open>derivatives_\<close>, which assigns the result of the
  recursive call to \<^verbatim>\<open>result\<close> and breaks when it is not empty. \<open>find_in_derivatives\<close> is
  that loop, with the current value of \<^verbatim>\<open>result\<close> as its last argument.
\<close>

fun find_object :: "nat \<Rightarrow> 'a heap \<Rightarrow> ref \<Rightarrow> addr \<Rightarrow> local_handle outcome"
  and find_in_derivatives :: "nat \<Rightarrow> 'a heap \<Rightarrow> ref list \<Rightarrow> addr \<Rightarrow> local_handle \<Rightarrow> local_handle outcome"
where
  "find_object 0 h this object = OutOfFuel"
| "find_object (Suc n) h this object =
     (case deref h this of
        None \<Rightarrow> BadPointer
      | Some ci \<Rightarrow>
          (case objects_' ci object of
             Some it \<Rightarrow> Returns (to_local it)
           | None \<Rightarrow> find_in_derivatives n h (derivatives_' ci) object None))"
| "find_in_derivatives n h [] object result = Returns result"
| "find_in_derivatives n h (info' # infos) object result =
     (case find_object n h info' object of
        Returns result' \<Rightarrow>
          if result' \<noteq> None then Returns result'
          else find_in_derivatives n h infos object result'
      | BadPointer \<Rightarrow> BadPointer
      | OutOfFuel \<Rightarrow> OutOfFuel)"

subsection \<open>Heaps that the operations build\<close>

text \<open>
  \<open>built h\<close>: the heap \<open>h\<close> comes from finitely many new descriptors, which have no base
  and no derivative, by calls of \<^verbatim>\<open>add_base\<close>, \<^verbatim>\<open>add_object\<close> and \<^verbatim>\<open>remove_object\<close> that
  returned.
\<close>

inductive built :: "'a heap \<Rightarrow> bool" where
  fresh: "finite (dom h) \<Longrightarrow>
          (\<And>r ci. deref h r = Some ci \<Longrightarrow> bases_' ci = [] \<and> derivatives_' ci = []) \<Longrightarrow>
          built h"
| linked: "built h \<Longrightarrow> add_base NDEBUG h this info' cast' = Returned () h' \<Longrightarrow> built h'"
| registered: "built h \<Longrightarrow> add_object NDEBUG h this object handle = Returned () h' \<Longrightarrow> built h'"
| removed: "built h \<Longrightarrow> remove_object NDEBUG h this object destroy = Returned called h' \<Longrightarrow> built h'"

section \<open>\<^verbatim>\<open>class_singleton<T>\<close>: descriptors, isolates and proxy objects\<close>

subsection \<open>The objects of the scripting engine\<close>

text \<open>
  The host engine, as far as \<^verbatim>\<open>class.hpp\<close> uses it. A \<^verbatim>\<open>v8::Value\<close> is an object
  (\<^verbatim>\<open>IsObject()\<close>) or not; an object has its internal fields (\<^verbatim>\<open>InternalFieldCount()\<close>
  is their number, and each holds an aligned pointer) and its prototype
  (\<^verbatim>\<open>GetPrototype()\<close>). A function template carries the internal field count of the
  instances made from it and the prototype they are given.
\<close>

datatype js_value = Primitive | Object obj_id

record js_object =
  internal_fields :: "addr list"
  prototype :: js_value

record function_template =
  internal_field_count :: nat
  instance_prototype :: js_value

type_synonym isolate = nat
type_synonym tname = string

text \<open>
  \<^verbatim>\<open>std::function<T* (v8::FunctionCallbackInfo<v8::Value> const& args)> ctor_\<close>: empty,
  or a function of the call's arguments that returns the address of the object it made
  (\<open>Inr\<close>) or leaves with a \<^verbatim>\<open>std::exception\<close> that has the given message (\<open>Inl\<close>).
\<close>

type_synonym ctor_function = "js_value list \<Rightarrow> string + addr"

text \<open>
  \<^verbatim>\<open>class class_singleton : public class_info\<close> adds four data members; the template
  parameter \<open>T\<close> is an argument of the operations below.
\<close>

record class_singleton = class_info +
  isolate_' :: isolate
  ctor_' :: "ctor_function option"
  func_' :: function_template
  js_func_' :: function_template

text \<open>
  The state of the process: the two function-local statics (\<^verbatim>\<open>next_index\<close> of
  \<^verbatim>\<open>register_class\<close>, and \<^verbatim>\<open>my_type\<close> of \<^verbatim>\<open>class_type\<close>, one per type \<open>T\<close> and set
  when the function is first called); for every isolate the vector that its data slot
  \<^verbatim>\<open>V8PP_ISOLATE_DATA_SLOT\<close> points to (\<open>None\<close> while the slot is null); the heap of
  descriptors with the next address that \<^verbatim>\<open>new\<close> gives out; the objects of the engine
  with the next object identity; the weak callbacks registered with \<^verbatim>\<open>SetWeak\<close> (the
  object and the parameter); and the exception scheduled in each isolate.
\<close>

record process =
  next_index :: type_index
  my_type :: "tname \<rightharpoonup> type_index"
  isolate_data :: "isolate \<rightharpoonup> ref list"
  classes :: "unit class_singleton_ext heap"
  next_ref :: ref
  js_objects :: "obj_id \<rightharpoonup> js_object"
  next_obj :: obj_id
  weak_callbacks :: "(obj_id \<times> addr) list"
  pending_exception :: "isolate \<rightharpoonup> string"

text \<open>
  Three operations of the engine (the spec, under the host engine object model: object
  templates with a fixed internal field count, and prototype-chain traversal).
  \<^verbatim>\<open>v8::FunctionTemplate::New(isolate)\<close>: a template whose instances have no internal
  field and get a new prototype object of the engine.
  \<^verbatim>\<open>GetFunction()->NewInstance()\<close>: a new object with the template's number of internal
  fields, all null, and the template's prototype.
  \<^verbatim>\<open>SetAlignedPointerInInternalField(index, ptr)\<close>: writes the field; the engine stops
  the process when the index is out of range.
\<close>

definition FunctionTemplate_New :: "process \<Rightarrow> function_template \<times> process" where
  "FunctionTemplate_New st =
     (\<lparr>internal_field_count = 0, instance_prototype = Object (next_obj st)\<rparr>,
      st\<lparr>js_objects := (js_objects st)(next_obj st \<mapsto> \<lparr>internal_fields = [], prototype = Primitive\<rparr>),
         next_obj := Suc (next_obj st)\<rparr>)"

definition NewInstance :: "function_template \<Rightarrow> process \<Rightarrow> obj_id \<times> process" where
  "NewInstance tmpl st =
     (next_obj st,
      st\<lparr>js_objects := (js_objects st)(next_obj st \<mapsto>
            \<lparr>internal_fields = replicate (internal_field_count tmpl) 0,
             prototype = instance_prototype tmpl\<rparr>),
         next_obj := Suc (next_obj st)\<rparr>)"

definition SetAlignedPointerInInternalField :: "obj_id \<Rightarrow> nat \<Rightarrow> addr \<Rightarrow> process \<Rightarrow> process option" where
  "SetAlignedPointerInInternalField obj index' ptr st =
     (case js_objects st obj of
        None \<Rightarrow> None
      | Some ob \<Rightarrow>
          if index' < length (internal_fields ob)
          then Some (st\<lparr>js_objects := (js_objects st)(obj \<mapsto>
                         ob\<lparr>internal_fields := (internal_fields ob)[index' := ptr]\<rparr>)\<rparr>)
          else None)"

text \<open>
  Modelled from the spec: \<^verbatim>\<open>throw_ex\<close> is declared in a header that is not among the
  sources; the callback below takes it as an argument. The spec has the failure
  ``signaled as a catchable scripting-level exception so that script code can react'',
  ``converted at the script-call boundary into the host engine's exception mechanism'':
  \<^verbatim>\<open>throw_ex(isolate, what)\<close> schedules an exception with the message in the isolate,
  and its result, which the callback hands back as the return value, is not an object.
\<close>

definition throw_ex_spec :: "isolate \<Rightarrow> string \<Rightarrow> process \<Rightarrow> js_value \<times> process" where
  "throw_ex_spec isolate what st =
     (Primitive, st\<lparr>pending_exception := (pending_exception st)(isolate \<mapsto> what)\<rparr>)"

subsection \<open>The directory of descriptors\<close>

text \<open>
  \<^verbatim>\<open>static type_index register_class() { static type_index next_index = 0;
  return next_index++; }\<close>, on \<^verbatim>\<open>unsigned\<close>.
\<close>

definition register_class :: "process \<Rightarrow> type_index \<times> process" where
  "register_class st = (next_index st, st\<lparr>next_index := next_index st + 1\<rparr>)"

text \<open>
  \<^verbatim>\<open>static type_index class_type() { static type_index const my_type =
  class_info::register_class(); return my_type; }\<close>: the initialiser runs at the first call
  for the type \<open>T\<close>.
\<close>

definition class_type :: "tname \<Rightarrow> process \<Rightarrow> type_index \<times> process" where
  "class_type T st =
     (case my_type st T of
        Some t \<Rightarrow> (t, st)
      | None \<Rightarrow>
          (let (t, st1) = register_class st
           in (t, st1\<lparr>my_type := (my_type st1)(T \<mapsto> t)\<rparr>)))"

text \<open>
  The constructor \<^verbatim>\<open>class_singleton(v8::Isolate* isolate, type_index type)\<close>: the base
  \<^verbatim>\<open>class_info(type)\<close>, no constructor function, the two templates, and
  \<^verbatim>\<open>func->InstanceTemplate()->SetInternalFieldCount(2)\<close>.
\<close>

definition new_class_singleton :: "isolate \<Rightarrow> type_index \<Rightarrow> process \<Rightarrow> class_singleton \<times> process" where
  "new_class_singleton isolate t st =
     (let (func, st1) = FunctionTemplate_New st;
          (js_func, st2) = FunctionTemplate_New st1
      in (\<lparr>type_' = t, bases_' = [], derivatives_' = [], objects_' = Map.empty,
           isolate_' = isolate, ctor_' = None,
           func_' = func\<lparr>internal_field_count := 2\<rparr>, js_func_' = js_func\<rparr>,
          st2))"

text \<open>
  \<^verbatim>\<open>static class_singleton& instance(v8::Isolate* isolate)\<close>: the vector of the isolate
  is fetched (made and stored when the slot is null); then \<^verbatim>\<open>class_type()\<close>; then, when
  \<^verbatim>\<open>my_type < singletons->size()\<close>, the element at \<^verbatim>\<open>my_type\<close>, and otherwise a new
  descriptor, which \<^verbatim>\<open>emplace_back\<close> appends to the vector. The result is the address
  of the descriptor.
\<close>

definition class_singleton_instance :: "tname \<Rightarrow> isolate \<Rightarrow> process \<Rightarrow> ref \<times> process" where
  "class_singleton_instance T isolate st =
     (let st1 = (case isolate_data st isolate of
                   Some singletons \<Rightarrow> st
                 | None \<Rightarrow> st\<lparr>isolate_data := (isolate_data st)(isolate \<mapsto> [])\<rparr>);
          singletons = (case isolate_data st isolate of Some singletons \<Rightarrow> singletons | None \<Rightarrow> []);
          (my_type', st2) = class_type T st1
      in if unat my_type' < length singletons
         then (singletons ! unat my_type', st2)
         else
           (let (cs, st3) = new_class_singleton isolate my_type' st2;
                result = next_ref st3
            in (result,
                st3\<lparr>classes := (classes st3)(result \<mapsto> cs),
                    next_ref := Suc result,
                    isolate_data := (isolate_data st3)(isolate \<mapsto> singletons @ [result])\<rparr>)))"

subsection \<open>Wrapping and unwrapping\<close>

text \<open>
  \<^verbatim>\<open>v8::Handle<v8::Object> wrap_external_object(T* wrap)\<close>, called on the descriptor at
  \<open>this\<close>: a new instance of \<^verbatim>\<open>func_\<close>, \<^verbatim>\<open>wrap\<close> into its field 0 and \<^verbatim>\<open>this\<close> into its
  field 1, then \<^verbatim>\<open>class_info::add_object\<close>.
\<close>

definition wrap_external_object :: "bool \<Rightarrow> ref \<Rightarrow> addr \<Rightarrow> process \<Rightarrow> (obj_id, process) completion" where
  "wrap_external_object NDEBUG this wrap st =
     (case deref (classes st) this of
        None \<Rightarrow> Undefined
      | Some cs \<Rightarrow>
          (let (obj, st1) = NewInstance (func_' cs) st
           in case SetAlignedPointerInInternalField obj 0 wrap st1 of
                None \<Rightarrow> Aborted ''Internal field out of bounds''
              | Some st2 \<Rightarrow>
                  (case SetAlignedPointerInInternalField obj 1 this st2 of
                     None \<Rightarrow> Aborted ''Internal field out of bounds''
                   | Some st3 \<Rightarrow>
                       (case add_object NDEBUG (classes st3) this wrap (Some obj) of
                          Returned u h \<Rightarrow> Returned obj (st3\<lparr>classes := h\<rparr>)
                        | Thrown what h \<Rightarrow> Thrown what (st3\<lparr>classes := h\<rparr>)
                        | Aborted what \<Rightarrow> Aborted what
                        | Undefined \<Rightarrow> Undefined))))"

text \<open>
  \<^verbatim>\<open>v8::Handle<v8::Object> wrap_object(T* wrap)\<close>: \<^verbatim>\<open>wrap_external_object\<close>, then a
  weak persistent handle whose callback destroys \<^verbatim>\<open>wrap\<close>.
\<close>

definition wrap_object :: "bool \<Rightarrow> ref \<Rightarrow> addr \<Rightarrow> process \<Rightarrow> (obj_id, process) completion" where
  "wrap_object NDEBUG this wrap st =
     (case wrap_external_object NDEBUG this wrap st of
        Returned obj st1 \<Rightarrow> Returned obj (st1\<lparr>weak_callbacks := weak_callbacks st1 @ [(obj, wrap)]\<rparr>)
      | Thrown what st1 \<Rightarrow> Thrown what st1
      | Aborted what \<Rightarrow> Aborted what
      | Undefined \<Rightarrow> Undefined)"

text \<open>
  \<^verbatim>\<open>wrap_object(v8::FunctionCallbackInfo<v8::Value> const& args)\<close>:
  \<^verbatim>\<open>return ctor_? wrap_object(ctor_(args)) : throw std::runtime_error("create is not
  allowed")\<close>.
\<close>

definition wrap_object_args :: "bool \<Rightarrow> ref \<Rightarrow> js_value list \<Rightarrow> process \<Rightarrow> (obj_id, process) completion" where
  "wrap_object_args NDEBUG this args st =
     (case deref (classes st) this of
        None \<Rightarrow> Undefined
      | Some cs \<Rightarrow>
          (case ctor_' cs of
             None \<Rightarrow> Thrown ''create is not allowed'' st
           | Some ctor \<Rightarrow>
               (case ctor args of
                  Inl what \<Rightarrow> Thrown what st
                | Inr wrap \<Rightarrow> wrap_object NDEBUG this wrap st)))"

text \<open>
  The callback of \<^verbatim>\<open>js_func\<close>, the lambda of the constructor: inside \<^verbatim>\<open>try\<close>,
  \<^verbatim>\<open>instance(isolate).wrap_object(args)\<close> becomes the return value; a
  \<^verbatim>\<open>std::exception\<close> is caught and \<^verbatim>\<open>throw_ex(isolate, ex.what())\<close> becomes the return
  value. The value returned here is the return value that the callback has set. The
  first argument is \<^verbatim>\<open>throw_ex\<close>, a function of the isolate, the message and the state
  that gives a value and a state.
\<close>

definition js_func_callback ::
    "(isolate \<Rightarrow> string \<Rightarrow> process \<Rightarrow> js_value \<times> process) \<Rightarrow>
     bool \<Rightarrow> tname \<Rightarrow> isolate \<Rightarrow> js_value list \<Rightarrow> process \<Rightarrow> (js_value, process) completion" where
  "js_func_callback throw_ex NDEBUG T isolate args st =
     (let (this, st1) = class_singleton_instance T isolate st
      in case wrap_object_args NDEBUG this args st1 of
           Returned obj st2 \<Rightarrow> Returned (Object obj) st2
         | Thrown what st2 \<Rightarrow> (let (v, st3) = throw_ex isolate what st2 in Returned v st3)
         | Aborted what \<Rightarrow> Aborted what
         | Undefined \<Rightarrow> Undefined)"

text \<open>
  \<^verbatim>\<open>T* unwrap_object(v8::Local<v8::Value> value)\<close>. The first two arguments bound the
  number of objects visited on the prototype chain and the depth of the recursion of
  \<^verbatim>\<open>cast\<close>. The last argument is the log of the reads of internal fields made so far:
  every \<^verbatim>\<open>GetAlignedPointerFromInternalField(i)\<close> on the object \<open>obj\<close> appends \<open>(obj, i)\<close>.
  The result pairs the outcome (the pointer returned, \<open>0\<close> for \<^verbatim>\<open>nullptr\<close>, with the
  state, which \<^verbatim>\<open>class_type()\<close> may have changed) with the log of the reads made, also
  when the call does not return.
\<close>

fun unwrap_object :: "nat \<Rightarrow> nat \<Rightarrow> tname \<Rightarrow> js_value \<Rightarrow> process \<Rightarrow> (obj_id \<times> nat) list \<Rightarrow>
    (addr \<times> process) outcome \<times> (obj_id \<times> nat) list" where
  "unwrap_object k n T Primitive st reads = (Returns (0, st), reads)"
| "unwrap_object 0 n T (Object obj) st reads = (OutOfFuel, reads)"
| "unwrap_object (Suc k) n T (Object obj) st reads =
     (case js_objects st obj of
        None \<Rightarrow> (BadPointer, reads)
      | Some ob \<Rightarrow>
          if length (internal_fields ob) = 2 then
            (let ptr = internal_fields ob ! 0;
                 info' = internal_fields ob ! 1;
                 reads' = reads @ [(obj, 0), (obj, 1)]
             in if info' \<noteq> 0 then
                  (let (t, st1) = class_type T st
                   in case cast n (classes st1) info' ptr t of
                        Returns (found, ptr') \<Rightarrow>
                          if found then (Returns (ptr', st1), reads')
                          else unwrap_object k n T (prototype ob) st1 reads'
                      | BadPointer \<Rightarrow> (BadPointer, reads')
                      | OutOfFuel \<Rightarrow> (OutOfFuel, reads'))
                else unwrap_object k n T (prototype ob) st reads')
          else unwrap_object k n T (prototype ob) st reads)"

text \<open>
  \<^verbatim>\<open>find_object(T const* obj)\<close> and \<^verbatim>\<open>destroy_object(T* obj)\<close> of the descriptor at
  \<open>this\<close> call \<^verbatim>\<open>class_info::find_object\<close> and \<^verbatim>\<open>class_info::remove_object\<close>, the
  latter with the destroy hook \<^verbatim>\<open>&factory<T>::destroy\<close>.
\<close>

definition singleton_find_object :: "nat \<Rightarrow> ref \<Rightarrow> addr \<Rightarrow> process \<Rightarrow> local_handle outcome" where
  "singleton_find_object n this obj st = find_object n (classes st) this obj"

definition destroy_object :: "bool \<Rightarrow> ref \<Rightarrow> addr \<Rightarrow> process \<Rightarrow> (addr list, process) completion" where
  "destroy_object NDEBUG this obj st =
     (case remove_object NDEBUG (classes st) this obj True of
        Returned called h \<Rightarrow> Returned called (st\<lparr>classes := h\<rparr>)
      | Thrown what h \<Rightarrow> Thrown what (st\<lparr>classes := h\<rparr>)
      | Aborted what \<Rightarrow> Aborted what
      | Undefined \<Rightarrow> Undefined)"

text \<open>
  The prototype chain of a value in a store of objects: the objects visited within \<open>k\<close>
  steps. \<open>chain_ends k js v\<close>: the chain of \<open>v\<close> ends within \<open>k\<close> objects, all of them in
  the store.
\<close>

fun proto_chain :: "nat \<Rightarrow> (obj_id \<rightharpoonup> js_object) \<Rightarrow> js_value \<Rightarrow> obj_id list" where
  "proto_chain k js Primitive = []"
| "proto_chain 0 js (Object obj) = []"
| "proto_chain (Suc k) js (Object obj) =
     (case js obj of
        None \<Rightarrow> [obj]
      | Some ob \<Rightarrow> obj # proto_chain k js (prototype ob))"

fun chain_ends :: "nat \<Rightarrow> (obj_id \<rightharpoonup> js_object) \<Rightarrow> js_value \<Rightarrow> bool" where
  "chain_ends k js Primitive = True"
| "chain_ends 0 js (Object obj) = False"
| "chain_ends (Suc k) js (Object obj) =
     (case js obj of
        None \<Rightarrow> False
      | Some ob \<Rightarrow> chain_ends k js (prototype ob))"

section \<open>Examples\<close>

subsection \<open>A process with one descriptor\<close>

text \<open>
  The process before any type is referenced, and the process after
  \<^verbatim>\<open>class_singleton<A>::instance\<close> in the isolate 1: the descriptor of \<open>A\<close> at the
  address 1, with the prototype objects 1 and 2 of its two templates.
\<close>

definition initial_process :: process where
  "initial_process =
     \<lparr>next_index = 0, my_type = Map.empty, isolate_data = Map.empty, classes = Map.empty,
      next_ref = 1, js_objects = Map.empty, next_obj = 1, weak_callbacks = [],
      pending_exception = Map.empty\<rparr>"

definition descriptor_A :: class_singleton where
  "descriptor_A =
     \<lparr>type_' = 0, bases_' = [], derivatives_' = [], objects_' = Map.empty,
      isolate_' = 1, ctor_' = None,
      func_' = \<lparr>internal_field_count = 2, instance_prototype = Object 1\<rparr>,
      js_func_' = \<lparr>internal_field_count = 0, instance_prototype = Object 2\<rparr>\<rparr>"

definition process_A :: process where
  "process_A =
     \<lparr>next_index = 1, my_type = [''A'' \<mapsto> 0], isolate_data = [1 \<mapsto> [1]],
      classes = [1 \<mapsto> descriptor_A],
      next_ref = 2,
      js_objects = [1 \<mapsto> \<lparr>internal_fields = [], prototype = Primitive\<rparr>,
                    2 \<mapsto> \<lparr>internal_fields = [], prototype = Primitive\<rparr>],
      next_obj = 3, weak_callbacks = [],
      pending_exception = Map.empty\<rparr>"

subsection \<open>Hierarchies and registries\<close>

text \<open>
  Three descriptors \<open>A\<close>, \<open>B\<close>, \<open>C\<close> at the addresses 1, 2, 3 with the types 0, 1, 2, and
  the pointer adjustments of the links \<open>C \<rightarrow> B\<close> (8 bytes) and \<open>B \<rightarrow> A\<close> (16 bytes).
\<close>

definition fresh_ABC :: "unit heap" where
  "fresh_ABC = [1 \<mapsto> new_class_info 0, 2 \<mapsto> new_class_info 1, 3 \<mapsto> new_class_info 2]"

definition hier_ABC :: "unit heap" where
  "hier_ABC =
     [1 \<mapsto> \<lparr>type_' = 0, bases_' = [], derivatives_' = [2], objects_' = Map.empty\<rparr>,
      2 \<mapsto> \<lparr>type_' = 1, bases_' = [\<lparr>info = 1, base_cast = (\<lambda>p. p + 16)\<rparr>],
            derivatives_' = [3], objects_' = Map.empty\<rparr>,
      3 \<mapsto> \<lparr>type_' = 2, bases_' = [\<lparr>info = 2, base_cast = (\<lambda>p. p + 8)\<rparr>],
            derivatives_' = [], objects_' = Map.empty\<rparr>]"

text \<open>A descriptor registered as its own base: \<^verbatim>\<open>add_base\<close> accepts it.\<close>

definition self_base :: "unit heap" where
  "self_base =
     [1 \<mapsto> \<lparr>type_' = 0, bases_' = [\<lparr>info = 1, base_cast = (\<lambda>p. p)\<rparr>],
            derivatives_' = [1], objects_' = Map.empty\<rparr>]"

text \<open>
  The same hierarchy with a \<open>C\<close> instance at the address 100 registered in the registry of
  \<open>C\<close> (proxy object 7); and with the address registered in the registry of \<open>A\<close> as well
  (proxy object 5).
\<close>

definition wrapped_C :: "unit heap" where
  "wrapped_C =
     [1 \<mapsto> \<lparr>type_' = 0, bases_' = [], derivatives_' = [2], objects_' = Map.empty\<rparr>,
      2 \<mapsto> \<lparr>type_' = 1, bases_' = [\<lparr>info = 1, base_cast = (\<lambda>p. p + 16)\<rparr>],
            derivatives_' = [3], objects_' = Map.empty\<rparr>,
      3 \<mapsto> \<lparr>type_' = 2, bases_' = [\<lparr>info = 2, base_cast = (\<lambda>p. p + 8)\<rparr>],
            derivatives_' = [], objects_' = [100 \<mapsto> Some 7]\<rparr>]"

definition wrapped_AC :: "unit heap" where
  "wrapped_AC =
     [1 \<mapsto> \<lparr>type_' = 0, bases_' = [], derivatives_' = [2], objects_' = [100 \<mapsto> Some 5]\<rparr>,
      2 \<mapsto> \<lparr>type_' = 1, bases_' = [\<lparr>info = 1, base_cast = (\<lambda>p. p)\<rparr>],
            derivatives_' = [3], objects_' = Map.empty\<rparr>,
      3 \<mapsto> \<lparr>type_' = 2, bases_' = [\<lparr>info = 2, base_cast = (\<lambda>p. p)\<rparr>],
            derivatives_' = [], objects_' = [100 \<mapsto> Some 7]\<rparr>]"

text \<open>
  A diamond: \<open>D\<close> (address 4, type 3) derives from \<open>B\<close> and \<open>C\<close>, which both derive from
  \<open>A\<close>; the adjustments are 8 for \<open>D \<rightarrow> B\<close>, 16 for \<open>B \<rightarrow> A\<close>, 2 for \<open>D \<rightarrow> C\<close> and 4 for
  \<open>C \<rightarrow> A\<close>. In \<open>diamond\<close> the base \<open>B\<close> of \<open>D\<close> is registered before \<open>C\<close>; in
  \<open>diamond_swapped\<close>, with the same links and adjustments, \<open>C\<close> is registered before \<open>B\<close>.
\<close>

definition fresh_ABCD :: "unit heap" where
  "fresh_ABCD =
     [1 \<mapsto> new_class_info 0, 2 \<mapsto> new_class_info 1, 3 \<mapsto> new_class_info 2,
      4 \<mapsto> new_class_info 3]"

definition diamond :: "unit heap" where
  "diamond =
     [1 \<mapsto> \<lparr>type_' = 0, bases_' = [], derivatives_' = [2, 3], objects_' = Map.empty\<rparr>,
      2 \<mapsto> \<lparr>type_' = 1, bases_' = [\<lparr>info = 1, base_cast = (\<lambda>p. p + 16)\<rparr>],
            derivatives_' = [4], objects_' = Map.empty\<rparr>,
      3 \<mapsto> \<lparr>type_' = 2, bases_' = [\<lparr>info = 1, base_cast = (\<lambda>p. p + 4)\<rparr>],
            derivatives_' = [4], objects_' = Map.empty\<rparr>,
      4 \<mapsto> \<lparr>type_' = 3, bases_' = [\<lparr>info = 2, base_cast = (\<lambda>p. p + 8)\<rparr>,
                                   \<lparr>info = 3, base_cast = (\<lambda>p. p + 2)\<rparr>],
            derivatives_' = [], objects_' = Map.empty\<rparr>]"

definition diamond_swapped :: "unit heap" where
  "diamond_swapped =
     [1 \<mapsto> \<lparr>type_' = 0, bases_' = [], derivatives_' = [2, 3], objects_' = Map.empty\<rparr>,
      2 \<mapsto> \<lparr>type_' = 1, bases_' = [\<lparr>info = 1, base_cast = (\<lambda>p. p + 16)\<rparr>],
            derivatives_' = [4], objects_' = Map.empty\<rparr>,
      3 \<mapsto> \<lparr>type_' = 2, bases_' = [\<lparr>info = 1, base_cast = (\<lambda>p. p + 4)\<rparr>],
            derivatives_' = [4], objects_' = Map.empty\<rparr>,
      4 \<mapsto> \<lparr>type_' = 3, bases_' = [\<lparr>info = 3, base_cast = (\<lambda>p. p + 2)\<rparr>,
                                   \<lparr>info = 2, base_cast = (\<lambda>p. p + 8)\<rparr>],
            derivatives_' = [], objects_' = Map.empty\<rparr>]"

subsection \<open>A prototype chain\<close>

text \<open>
  A second type \<open>B\<close> with the index 1, and three objects of the engine: object 10 has one
  internal field and the prototype 11; object 11 is a proxy of the address 100 made by
  the descriptor of \<open>A\<close>, with the prototype 12; object 12 has two null internal fields
  and ends the chain.
\<close>

definition process_chain :: process where
  "process_chain =
     \<lparr>next_index = 2, my_type = [''A'' \<mapsto> 0, ''B'' \<mapsto> 1], isolate_data = [1 \<mapsto> [1]],
      classes = [1 \<mapsto> descriptor_A],
      next_ref = 2,
      js_objects = [10 \<mapsto> \<lparr>internal_fields = [7], prototype = Object 11\<rparr>,
                    11 \<mapsto> \<lparr>internal_fields = [100, 1], prototype = Object 12\<rparr>,
                    12 \<mapsto> \<lparr>internal_fields = [0, 0], prototype = Primitive\<rparr>],
      next_obj = 13, weak_callbacks = [],
      pending_exception = Map.empty\<rparr>"

subsection \<open>A proxy of a descriptor that is its own base\<close>

text \<open>
  The process after \<^verbatim>\<open>instance\<close> for \<open>A\<close> and for \<open>B\<close> in the isolate 1 (descriptors at the
  addresses 1 and 2, prototype objects 1 to 4), \<^verbatim>\<open>add_base\<close> of the descriptor of \<open>A\<close> to
  itself, and \<^verbatim>\<open>wrap_external_object\<close> of the address 100 by the descriptor of \<open>A\<close>
  (proxy object 5).
\<close>

definition descriptor_B :: class_singleton where
  "descriptor_B =
     \<lparr>type_' = 1, bases_' = [], derivatives_' = [], objects_' = Map.empty,
      isolate_' = 1, ctor_' = None,
      func_' = \<lparr>internal_field_count = 2, instance_prototype = Object 3\<rparr>,
      js_func_' = \<lparr>internal_field_count = 0, instance_prototype = Object 4\<rparr>\<rparr>"

definition process_self_base :: process where
  "process_self_base =
     \<lparr>next_index = 2, my_type = [''A'' \<mapsto> 0, ''B'' \<mapsto> 1], isolate_data = [1 \<mapsto> [1, 2]],
      classes = [1 \<mapsto> descriptor_A\<lparr>bases_' := [\<lparr>info = 1, base_cast = (\<lambda>p. p)\<rparr>],
                                        derivatives_' := [1],
                                        objects_' := [100 \<mapsto> Some 5]\<rparr>,
                 2 \<mapsto> descriptor_B],
      next_ref = 3,
      js_objects = [1 \<mapsto> \<lparr>internal_fields = [], prototype = Primitive\<rparr>,
                    2 \<mapsto> \<lparr>internal_fields = [], prototype = Primitive\<rparr>,
                    3 \<mapsto> \<lparr>internal_fields = [], prototype = Primitive\<rparr>,
                    4 \<mapsto> \<lparr>internal_fields = [], prototype = Primitive\<rparr>,
                    5 \<mapsto> \<lparr>internal_fields = [100, 1], prototype = Object 1\<rparr>],
      next_obj = 6, weak_callbacks = [],
      pending_exception = Map.empty\<rparr>"

section \<open>Properties of the cast table\<close>

subsection \<open>A failed cast leaves the pointer alone\<close>

lemma direct_parent_False: "direct_parent h bases ptr t = Returns (False, q) \<Longrightarrow> q = ptr"
  by (induction bases) (auto split: option.splits if_splits)

lemma cast_False: "cast n h this ptr t = Returns (False, q) \<Longrightarrow> q = ptr"
  and walk_False: "walk n h bases ptr t = Returns (False, q) \<Longrightarrow> q = ptr"
proof (induction n h this ptr t and n h bases ptr t rule: cast_walk.induct)
  case (2 n h this ptr t)
  from "2.prems" obtain ci ptr' where ci: "deref h this = Some ci" "t \<noteq> type_' ci"
    and dp: "direct_parent h (bases_' ci) ptr t = Returns (False, ptr')"
    and w: "walk n h (bases_' ci) ptr' t = Returns (False, q)"
    by (auto split: option.splits outcome.splits if_splits)
  from "2.IH" [OF ci dp refl _ w] direct_parent_False [OF dp] show ?case by simp
qed (auto split: outcome.splits if_splits)

subsection \<open>More fuel does not change a result\<close>

lemma cast_Suc: "cast n h this ptr t \<noteq> OutOfFuel \<Longrightarrow> cast (Suc n) h this ptr t = cast n h this ptr t"
  and walk_Suc: "walk n h bases ptr t \<noteq> OutOfFuel \<Longrightarrow> walk (Suc n) h bases ptr t = walk n h bases ptr t"
proof (induction n h this ptr t and n h bases ptr t rule: cast_walk.induct)
  case (1 h this ptr t)
  then show ?case by simp
next
  case (2 n h this ptr t)
  show ?case
  proof (cases "deref h this")
    case None
    then show ?thesis by simp
  next
    case (Some ci)
    show ?thesis
    proof (cases "t = type_' ci")
      case True
      with Some show ?thesis by simp
    next
      case False
      show ?thesis
      proof (cases "direct_parent h (bases_' ci) ptr t")
        case (Returns res)
        obtain found ptr' where res: "res = (found, ptr')" by (cases res)
        show ?thesis
        proof (cases found)
          case True
          with Some False Returns res show ?thesis by simp
        next
          case nf: False
          from "2.prems" Some False Returns res nf
          have "walk n h (bases_' ci) ptr' t \<noteq> OutOfFuel" by simp
          with "2.IH" [OF Some False Returns res [symmetric]] nf
          have "walk (Suc n) h (bases_' ci) ptr' t = walk n h (bases_' ci) ptr' t" by simp
          with Some False Returns res nf show ?thesis by simp
        qed
      qed (use Some False in simp_all)
    qed
  qed
next
  case (3 n h ptr t)
  then show ?case by simp
next
  case (4 n h base bases ptr t)
  show ?case
  proof (cases "cast n h (info base) (base_cast base ptr) t")
    case OutOfFuel
    with "4.prems" show ?thesis by simp
  next
    case BadPointer
    with "4.IH"(1) have "cast (Suc n) h (info base) (base_cast base ptr) t = BadPointer" by simp
    with BadPointer show ?thesis by (simp del: cast.simps)
  next
    case (Returns res)
    obtain found p where res: "res = (found, p)" by (cases res)
    from "4.IH"(1) Returns
    have c: "cast (Suc n) h (info base) (base_cast base ptr) t = Returns res" by simp
    show ?thesis
    proof (cases found)
      case True
      with c Returns res show ?thesis by (simp del: cast.simps)
    next
      case nf: False
      from "4.prems" Returns res nf have "walk n h bases ptr t \<noteq> OutOfFuel" by simp
      with "4.IH"(2) [OF Returns res [symmetric]] nf
      have "walk (Suc n) h bases ptr t = walk n h bases ptr t" by simp
      with c Returns res nf show ?thesis by (simp del: cast.simps)
    qed
  qed
qed

lemma cast_mono: "cast n h this ptr t \<noteq> OutOfFuel \<Longrightarrow> n \<le> m \<Longrightarrow> cast m h this ptr t = cast n h this ptr t"
proof (induction m)
  case 0
  then show ?case by simp
next
  case (Suc m)
  show ?case
  proof (cases "n = Suc m")
    case True
    then show ?thesis by simp
  next
    case False
    with Suc.prems have le: "n \<le> m" by simp
    from Suc.IH [OF Suc.prems(1) le] Suc.prems(1)
    have "cast m h this ptr t \<noteq> OutOfFuel" by simp
    from cast_Suc [OF this] Suc.IH [OF Suc.prems(1) le] show ?thesis by simp
  qed
qed

lemma cast_deterministic:
  assumes "cast n h this ptr t = Returns res" and "cast m h this ptr t = Returns res'"
  shows "res' = res"
proof (cases "n \<le> m")
  case True
  from cast_mono [OF _ True, of h this ptr t] assms show ?thesis by simp
next
  case False
  then have "m \<le> n" by simp
  from cast_mono [OF _ this, of h this ptr t] assms show ?thesis by simp
qed

subsection \<open>What a returned cast says about the chains of BaseLinks\<close>

lemma direct_parent_True:
  "direct_parent h bases ptr t = Returns (True, q) \<Longrightarrow>
   \<exists>b \<in> set bases. reaches h (info b) [] t \<and> q = base_cast b ptr"
  by (induction bases) (auto split: option.splits if_splits)

lemma cast_True: "cast n h this ptr t = Returns (True, q) \<Longrightarrow>
    \<exists>bs. reaches h this bs t \<and> q = fold base_cast bs ptr"
  and walk_True: "walk n h bases ptr t = Returns (True, q) \<Longrightarrow>
    \<exists>b \<in> set bases. \<exists>bs. reaches h (info b) bs t \<and> q = fold base_cast bs (base_cast b ptr)"
proof (induction n h this ptr t and n h bases ptr t rule: cast_walk.induct)
  case (1 h this ptr t)
  then show ?case by simp
next
  case (2 n h this ptr t)
  from "2.prems" obtain ci where ci: "deref h this = Some ci"
    by (auto split: option.splits)
  show ?case
  proof (cases "t = type_' ci")
    case True
    with ci "2.prems" have "reaches h this [] t \<and> q = fold base_cast [] ptr" by simp
    then show ?thesis by blast
  next
    case False
    with ci "2.prems" obtain found ptr' where dp: "direct_parent h (bases_' ci) ptr t = Returns (found, ptr')"
      by (auto split: outcome.splits)
    show ?thesis
    proof (cases found)
      case True
      with ci False dp "2.prems" have q: "q = ptr'" by simp
      from direct_parent_True [of h "bases_' ci" ptr t ptr'] dp True
      obtain b where b: "b \<in> set (bases_' ci)" "reaches h (info b) [] t" "ptr' = base_cast b ptr"
        by auto
      with ci q have "reaches h this [b] t \<and> q = fold base_cast [b] ptr" by simp
      then show ?thesis by blast
    next
      case nf: False
      with ci False dp "2.prems" have w: "walk n h (bases_' ci) ptr' t = Returns (True, q)" by simp
      from direct_parent_False [of h "bases_' ci" ptr t ptr'] dp nf have p: "ptr' = ptr" by simp
      from "2.IH" [OF ci False dp refl nf w] p
      obtain b bs where b: "b \<in> set (bases_' ci)" "reaches h (info b) bs t"
        "q = fold base_cast bs (base_cast b ptr)" by auto
      with ci have "reaches h this (b # bs) t \<and> q = fold base_cast (b # bs) ptr" by simp
      then show ?thesis by blast
    qed
  qed
next
  case (3 n h ptr t)
  then show ?case by simp
next
  case (4 n h base bases ptr t)
  from "4.prems" obtain found p where c: "cast n h (info base) (base_cast base ptr) t = Returns (found, p)"
    by (auto split: outcome.splits)
  show ?case
  proof (cases found)
    case True
    with c "4.prems" have "p = q" by simp
    with "4.IH"(1) c True show ?thesis by auto
  next
    case False
    with c "4.prems" have "walk n h bases ptr t = Returns (True, q)" by simp
    from "4.IH"(2) [OF c refl False this] show ?thesis by auto
  qed
qed

lemma cast_False_unreachable: "cast n h this ptr t = Returns (False, q) \<Longrightarrow> \<not> reaches h this bs t"
  and walk_False_unreachable: "walk n h bases ptr t = Returns (False, q) \<Longrightarrow>
     b \<in> set bases \<Longrightarrow> \<not> reaches h (info b) bs t"
proof (induction n h this ptr t and n h bases ptr t arbitrary: bs q and b bs q rule: cast_walk.induct)
  case (1 h this ptr t)
  then show ?case by simp
next
  case (2 n h this ptr t)
  from "2.prems" obtain ci ptr' where ci: "deref h this = Some ci" "t \<noteq> type_' ci"
    and dp: "direct_parent h (bases_' ci) ptr t = Returns (False, ptr')"
    and w: "walk n h (bases_' ci) ptr' t = Returns (False, q)"
    by (auto split: option.splits outcome.splits if_splits)
  show ?case
  proof (cases bs)
    case Nil
    with ci show ?thesis by auto
  next
    case (Cons b bs')
    from "2.IH" [OF ci dp refl _ w] have "b \<in> set (bases_' ci) \<Longrightarrow> \<not> reaches h (info b) bs' t"
      by simp
    with ci Cons show ?thesis by auto
  qed
next
  case (3 n h ptr t)
  then show ?case by simp
next
  case (4 n h base bases ptr t)
  from "4.prems" obtain p where c: "cast n h (info base) (base_cast base ptr) t = Returns (False, p)"
    and w: "walk n h bases ptr t = Returns (False, q)"
    by (auto split: outcome.splits if_splits)
  from "4.IH"(1) [OF c] have 1: "\<not> reaches h (info base) bs t" .
  from "4.IH"(2) [OF c refl _ w] have 2: "b \<in> set bases \<Longrightarrow> \<not> reaches h (info b) bs t" by simp
  from 1 2 "4.prems"(2) show ?case by auto
qed

subsection \<open>Hierarchies of bounded depth, and hierarchies without cycles\<close>

lemma depth_le_Suc: "depth_le n h r \<Longrightarrow> depth_le (Suc n) h r"
proof (induction n arbitrary: r)
  case 0
  then show ?case by simp
next
  case (Suc n)
  from Suc.prems obtain ci where ci: "deref h r = Some ci"
    and all: "list_all (\<lambda>b. depth_le n h (info b)) (bases_' ci)"
    by (auto split: option.splits)
  from all Suc.IH have "list_all (\<lambda>b. depth_le (Suc n) h (info b)) (bases_' ci)"
    unfolding list_all_iff by blast
  with ci show ?case by (subst depth_le.simps) simp
qed

lemma depth_le_mono: "depth_le n h r \<Longrightarrow> n \<le> m \<Longrightarrow> depth_le m h r"
  by (induction m) (auto simp: le_Suc_eq dest: depth_le_Suc simp del: depth_le.simps)

lemma direct_parent_total:
  "\<forall>b \<in> set bases. deref h (info b) \<noteq> None \<Longrightarrow> \<exists>res. direct_parent h bases ptr t = Returns res"
  by (induction bases) auto

lemma depth_le_live: "depth_le n h r \<Longrightarrow> deref h r \<noteq> None"
  by (cases n) (auto split: option.splits)

lemma cast_total: "depth_le n h this \<Longrightarrow> \<exists>res. cast n h this ptr t = Returns res"
  and walk_total: "list_all (\<lambda>b. depth_le n h (info b)) bases \<Longrightarrow> \<exists>res. walk n h bases ptr t = Returns res"
proof (induction n h this ptr t and n h bases ptr t rule: cast_walk.induct)
  case (1 h this ptr t)
  then show ?case by simp
next
  case (2 n h this ptr t)
  from "2.prems" obtain ci where ci: "deref h this = Some ci"
    and all: "list_all (\<lambda>b. depth_le n h (info b)) (bases_' ci)"
    by (auto split: option.splits)
  show ?case
  proof (cases "t = type_' ci")
    case True
    with ci show ?thesis by auto
  next
    case False
    from all have "\<forall>b \<in> set (bases_' ci). deref h (info b) \<noteq> None"
      unfolding list_all_iff using depth_le_live by blast
    from direct_parent_total [OF this, of ptr t]
    obtain found ptr' where dp: "direct_parent h (bases_' ci) ptr t = Returns (found, ptr')"
      by auto
    show ?thesis
    proof (cases found)
      case True
      with ci False dp show ?thesis by auto
    next
      case nf: False
      from "2.IH" [OF ci False dp refl nf all]
      obtain res where "walk n h (bases_' ci) ptr' t = Returns res" by blast
      with ci False dp nf show ?thesis by auto
    qed
  qed
next
  case (3 n h ptr t)
  show ?case by auto
next
  case (4 n h base bases ptr t)
  from "4.prems" have d: "depth_le n h (info base)"
    and all: "list_all (\<lambda>b. depth_le n h (info b)) bases" by simp_all
  from "4.IH"(1) [OF d] obtain found p where c: "cast n h (info base) (base_cast base ptr) t = Returns (found, p)"
    by auto
  show ?case
  proof (cases found)
    case True
    with c show ?thesis by auto
  next
    case False
    from "4.IH"(2) [OF c refl False all] obtain res where "walk n h bases ptr t = Returns res" by blast
    with c False show ?thesis by auto
  qed
qed


lemma finite_base_rel: "finite (dom h) \<Longrightarrow> finite (base_rel h)"
proof -
  assume fin: "finite (dom h)"
  have "base_rel h \<subseteq> (\<Union>r \<in> dom h. (\<lambda>b. (r, info b)) ` set (bases_' (the (h r))))"
  proof
    fix x assume "x \<in> base_rel h"
    then obtain r ci b where x: "x = (r, info b)" and r: "h r = Some ci" and b: "b \<in> set (bases_' ci)"
      by (auto simp: base_rel_def deref_def split: if_splits)
    from r have "r \<in> dom h" by auto
    moreover from r b have "x \<in> (\<lambda>b. (r, info b)) ` set (bases_' (the (h r)))"
      unfolding x by simp
    ultimately show "x \<in> (\<Union>r \<in> dom h. (\<lambda>b. (r, info b)) ` set (bases_' (the (h r))))"
      by blast
  qed
  moreover from fin have "finite (\<Union>r \<in> dom h. (\<lambda>b. (r, info b)) ` set (bases_' (the (h r))))"
    by simp
  ultimately show ?thesis by (rule finite_subset)
qed

lemma uniform_depth:
  "\<forall>b \<in> set bs. \<exists>n. depth_le n h (info b) \<Longrightarrow> \<exists>n. list_all (\<lambda>b. depth_le n h (info b)) bs"
proof (induction bs)
  case Nil
  then show ?case by simp
next
  case (Cons b bs)
  then obtain n1 n2 where n1: "depth_le n1 h (info b)"
    and n2: "list_all (\<lambda>b. depth_le n2 h (info b)) bs" by auto
  from n1 have "depth_le (max n1 n2) h (info b)" by (rule depth_le_mono) simp
  moreover from n2 have "list_all (\<lambda>b. depth_le (max n1 n2) h (info b)) bs"
    unfolding list_all_iff using depth_le_mono [of n2 h _ "max n1 n2"] by simp
  ultimately show ?case by auto
qed

lemma acyclic_depth:
  assumes fin: "finite (dom h)" and cl: "closed h" and ac: "acyclic (base_rel h)"
  shows "deref h r \<noteq> None \<Longrightarrow> \<exists>n. depth_le n h r"
proof -
  from finite_base_rel [OF fin] ac have "wf ((base_rel h)\<inverse>)"
    by (rule finite_acyclic_wf_converse)
  then show "deref h r \<noteq> None \<Longrightarrow> \<exists>n. depth_le n h r"
  proof (induction r rule: wf_induct_rule)
    case (less r)
    from less.prems obtain ci where ci: "deref h r = Some ci" by auto
    have "\<forall>b \<in> set (bases_' ci). \<exists>n. depth_le n h (info b)"
    proof
      fix b assume b: "b \<in> set (bases_' ci)"
      with ci have "(info b, r) \<in> (base_rel h)\<inverse>" by (auto simp: base_rel_def)
      moreover from cl ci b have "deref h (info b) \<noteq> None" unfolding closed_def by blast
      ultimately show "\<exists>n. depth_le n h (info b)" by (rule less.IH)
    qed
    from uniform_depth [OF this] obtain n where "list_all (\<lambda>b. depth_le n h (info b)) (bases_' ci)" ..
    with ci have "depth_le (Suc n) h r" by simp
    then show ?case ..
  qed
qed

lemma acyclic_by_address:
  assumes "\<And>r ci b. deref h r = Some ci \<Longrightarrow> b \<in> set (bases_' ci) \<Longrightarrow> info b < r"
  shows "acyclic (base_rel h)"
proof -
  have "base_rel h \<subseteq> (less_than :: (nat \<times> nat) set)\<inverse>"
    using assms by (auto simp: base_rel_def)
  moreover have "acyclic ((less_than :: (nat \<times> nat) set)\<inverse>)"
    by (simp add: acyclic_converse wf_acyclic)
  ultimately show ?thesis by (rule acyclic_subset [rotated])
qed

subsection \<open>The example hierarchy has no cycle\<close>

lemma hier_ABC_acyclic: "acyclic (base_rel hier_ABC)"
  by (rule acyclic_by_address) (auto simp: hier_ABC_def deref_def split: if_splits)

subsection \<open>Hierarchies built by \<^verbatim>\<open>add_base\<close>\<close>

text \<open>
  \<^verbatim>\<open>add_base\<close> keeps a heap finite and closed: every BaseLink and every back-reference
  it writes points to a descriptor that the call has just dereferenced. So every built
  heap is finite and closed. The example hierarchy is built: it is what two calls of
  \<^verbatim>\<open>add_base\<close> make of three new descriptors.
\<close>

lemma add_base_closed:
  assumes cl: "closed h" and r: "add_base NDEBUG h this info' cast' = Returned () h'"
  shows "closed h'" and "dom h' = dom h"
proof -
  from r obtain ci where ci: "deref h this = Some ci"
    by (auto simp: add_base_def split: option.splits)
  from ci have this0: "this \<noteq> 0" by (auto simp: deref_def split: if_splits)
  let ?ci' = "ci\<lparr>bases_' := bases_' ci @ [\<lparr>info = info', base_cast = cast'\<rparr>]\<rparr>"
  let ?h1 = "h(this \<mapsto> ?ci')"
  from r ci obtain bi where bi: "deref ?h1 info' = Some bi"
    and h': "h' = ?h1(info' \<mapsto> bi\<lparr>derivatives_' := derivatives_' bi @ [this]\<rparr>)"
    by (auto simp: add_base_def Let_def split: option.splits if_splits)
  from bi have info0: "info' \<noteq> 0" by (auto simp: deref_def split: if_splits)
  from ci this0 have dt: "this \<in> dom h" by (auto simp: deref_def)
  from bi info0 dt have di: "info' \<in> dom h" by (auto simp: deref_def split: if_splits)
  from dt di show dom: "dom h' = dom h" unfolding h' by auto
  have live: "deref h' r \<noteq> None \<longleftrightarrow> deref h r \<noteq> None" for r
    using dom by (auto simp: deref_def dom_def)
  have live_this: "deref h' this \<noteq> None" using dom dt this0 by (auto simp: deref_def dom_def)
  have live_info: "deref h' info' \<noteq> None" using dom di info0 by (auto simp: deref_def dom_def)
  show "closed h'"
    unfolding closed_def
  proof (intro allI impI)
    fix r c assume rc: "deref h' r = Some c"
    then have r0: "r \<noteq> 0" by (auto simp: deref_def split: if_splits)
    consider (both) "r = this" "r = info'" | (t) "r = this" "r \<noteq> info'"
      | (i) "r \<noteq> this" "r = info'" | (other) "r \<noteq> this" "r \<noteq> info'" by blast
    then show "(\<forall>b \<in> set (bases_' c). deref h' (info b) \<noteq> None) \<and>
               (\<forall>d \<in> set (derivatives_' c). deref h' d \<noteq> None)"
    proof cases
      case both
      with rc bi h' r0 have c: "c = ?ci'\<lparr>derivatives_' := derivatives_' ?ci' @ [this]\<rparr>"
        by (auto simp: deref_def)
      from cl ci have "(\<forall>b \<in> set (bases_' ci). deref h (info b) \<noteq> None) \<and>
               (\<forall>d \<in> set (derivatives_' ci). deref h d \<noteq> None)"
        unfolding closed_def by blast
      with c live live_this live_info show ?thesis by auto
    next
      case t
      with rc h' r0 have c: "c = ?ci'" by (auto simp: deref_def)
      from cl ci have "(\<forall>b \<in> set (bases_' ci). deref h (info b) \<noteq> None) \<and>
               (\<forall>d \<in> set (derivatives_' ci). deref h d \<noteq> None)"
        unfolding closed_def by blast
      with c live live_info show ?thesis by auto
    next
      case i
      with bi info0 have hb: "deref h info' = Some bi" by (auto simp: deref_def)
      from i rc h' r0 have c: "c = bi\<lparr>derivatives_' := derivatives_' bi @ [this]\<rparr>"
        by (auto simp: deref_def)
      from cl hb have "(\<forall>b \<in> set (bases_' bi). deref h (info b) \<noteq> None) \<and>
               (\<forall>d \<in> set (derivatives_' bi). deref h d \<noteq> None)"
        unfolding closed_def by blast
      with c live live_this show ?thesis by auto
    next
      case other
      with rc h' r0 have "deref h r = Some c" by (auto simp: deref_def)
      with cl have "(\<forall>b \<in> set (bases_' c). deref h (info b) \<noteq> None) \<and>
               (\<forall>d \<in> set (derivatives_' c). deref h d \<noteq> None)"
        unfolding closed_def by blast
      with live show ?thesis by auto
    qed
  qed
qed

lemma objects_update_closed:
  assumes cl: "closed h" and ci: "deref h this = Some ci"
  shows "closed (h(this \<mapsto> ci\<lparr>objects_' := m\<rparr>))"
  unfolding closed_def
proof (intro allI impI)
  fix r c assume rc: "deref (h(this \<mapsto> ci\<lparr>objects_' := m\<rparr>)) r = Some c"
  have live: "deref h x \<noteq> None \<Longrightarrow> deref (h(this \<mapsto> ci\<lparr>objects_' := m\<rparr>)) x \<noteq> None" for x
    by (auto simp: deref_def split: if_splits)
  from rc ci obtain c0 where c0: "deref h r = Some c0"
    and eq: "bases_' c = bases_' c0" "derivatives_' c = derivatives_' c0"
    by (cases "r = this") (auto simp: deref_def split: if_splits)
  from cl c0 have "(\<forall>b \<in> set (bases_' c0). deref h (info b) \<noteq> None) \<and>
               (\<forall>d \<in> set (derivatives_' c0). deref h d \<noteq> None)"
    unfolding closed_def by blast
  with eq live
  show "(\<forall>b \<in> set (bases_' c). deref (h(this \<mapsto> ci\<lparr>objects_' := m\<rparr>)) (info b) \<noteq> None) \<and>
        (\<forall>d \<in> set (derivatives_' c). deref (h(this \<mapsto> ci\<lparr>objects_' := m\<rparr>)) d \<noteq> None)"
    by auto
qed

lemma add_object_closed:
  assumes "finite (dom h) \<and> closed h" and "add_object NDEBUG h this object handle = Returned () h'"
  shows "finite (dom h') \<and> closed h'"
  using assms objects_update_closed [of h this]
  by (auto simp: add_object_def split: option.splits if_splits)

lemma remove_object_closed:
  assumes "finite (dom h) \<and> closed h" and "remove_object NDEBUG h this object destroy = Returned called h'"
  shows "finite (dom h') \<and> closed h'"
  using assms objects_update_closed [of h this]
  by (auto simp: remove_object_def split: option.splits if_splits)

lemma built_finite_closed: "built h \<Longrightarrow> finite (dom h) \<and> closed h"
proof (induction rule: built.induct)
  case (fresh h)
  then show ?case by (auto simp: closed_def)
next
  case (linked h NDEBUG this info' cast' h')
  with add_base_closed [of h NDEBUG this info' cast' h'] show ?case by simp
next
  case (registered h NDEBUG this object handle h')
  then show ?case using add_object_closed by blast
next
  case (removed h NDEBUG this object destroy called h')
  then show ?case using remove_object_closed by blast
qed

lemma hier_ABC_built: "built hier_ABC"
proof -
  have 0: "built fresh_ABC"
    by (rule built.fresh) (auto simp: fresh_ABC_def new_class_info_def deref_def split: if_splits)
  let ?h1 = "[1 \<mapsto> \<lparr>type_' = 0, bases_' = [], derivatives_' = [2], objects_' = Map.empty\<rparr>,
      2 \<mapsto> \<lparr>type_' = 1, bases_' = [\<lparr>info = 1, base_cast = (\<lambda>p. p + 16)\<rparr>],
            derivatives_' = [], objects_' = Map.empty\<rparr>,
      3 \<mapsto> new_class_info 2] :: unit heap"
  have 1: "add_base False fresh_ABC 2 1 (\<lambda>p. p + 16) = Returned () ?h1"
    by (simp add: add_base_def fresh_ABC_def deref_def new_class_info_def fun_eq_iff)
  have 2: "add_base False ?h1 3 2 (\<lambda>p. p + 8) = Returned () hier_ABC"
    by (simp add: add_base_def hier_ABC_def deref_def new_class_info_def fun_eq_iff)
  from built.linked [OF built.linked [OF 0 1] 2] show ?thesis .
qed

subsection \<open>The chain that the order of registration selects\<close>

lemma direct_parent_found:
  "direct_parent h bases ptr t = Returns (True, q) \<Longrightarrow>
   \<exists>d. find (\<lambda>d. map_option type_' (deref h (info d)) = Some t) bases = Some d \<and>
       q = base_cast d ptr"
  by (induction bases) (auto split: option.splits if_splits)

lemma direct_parent_not_found:
  "direct_parent h bases ptr t = Returns (False, q) \<Longrightarrow>
   find (\<lambda>d. map_option type_' (deref h (info d)) = Some t) bases = None"
  by (induction bases) (auto split: option.splits if_splits)

lemma selected_reaches: "selected h r bs t \<Longrightarrow> reaches h r bs t"
proof (induction bs arbitrary: r)
  case Nil
  then show ?case by simp
next
  case (Cons b bs)
  from Cons.prems obtain ci where ci: "deref h r = Some ci" by (auto split: option.splits)
  show ?case
  proof (cases "find (\<lambda>d. map_option type_' (deref h (info d)) = Some t) (bases_' ci)")
    case None
    with Cons.prems ci obtain pre post where "bases_' ci = pre @ b # post"
      and s: "selected h (info b) bs t" by auto
    then have "b \<in> set (bases_' ci)" by simp
    with ci Cons.IH [OF s] show ?thesis by simp
  next
    case (Some d)
    with Cons.prems ci have bd: "b = d" "bs = []" by auto
    from Some have "d \<in> set (bases_' ci)" "map_option type_' (deref h (info d)) = Some t"
      by (auto simp: find_Some_iff)
    with ci bd show ?thesis by (auto split: option.splits)
  qed
qed

lemma first_in_list:
  assumes "pre @ b # post = pre' @ b' # post'" and "b \<notin> set pre'" and "b' \<notin> set pre"
  shows "pre = pre' \<and> b = b'"
  using assms
proof (induction pre arbitrary: pre')
  case Nil
  then show ?case by (cases pre') auto
next
  case (Cons a pre)
  then show ?case by (cases pre') auto
qed

lemma selected_unique: "selected h r bs t \<Longrightarrow> selected h r bs' t \<Longrightarrow> bs' = bs"
proof (induction bs arbitrary: r bs')
  case Nil
  then show ?case by (cases bs') (auto split: option.splits)
next
  case (Cons b bs)
  from Cons.prems(1) obtain ci where ci: "deref h r = Some ci" and nt: "type_' ci \<noteq> t"
    by (auto split: option.splits)
  with Cons.prems(2) obtain b' bs'' where bs': "bs' = b' # bs''"
    by (cases bs') auto
  show ?case
  proof (cases "find (\<lambda>d. map_option type_' (deref h (info d)) = Some t) (bases_' ci)")
    case (Some d)
    with Cons.prems ci bs' show ?thesis by auto
  next
    case None
    with Cons.prems(1) ci obtain pre post where p: "bases_' ci = pre @ b # post"
      and np: "\<forall>x \<in> set pre. \<forall>c. \<not> reaches h (info x) c t"
      and s: "selected h (info b) bs t" by auto
    from None Cons.prems(2) ci bs' obtain pre' post' where p': "bases_' ci = pre' @ b' # post'"
      and np': "\<forall>x \<in> set pre'. \<forall>c. \<not> reaches h (info x) c t"
      and s': "selected h (info b') bs'' t" by auto
    from selected_reaches [OF s] np' have 1: "b \<notin> set pre'" by blast
    from selected_reaches [OF s'] np have 2: "b' \<notin> set pre" by blast
    from p p' have "pre @ b # post = pre' @ b' # post'" by simp
    from first_in_list [OF this 1 2] have bb: "b = b'" by simp
    with s' have "selected h (info b) bs'' t" by simp
    from Cons.IH [OF s this] bb bs' show ?thesis by simp
  qed
qed

lemma cast_selected: "cast n h this ptr t = Returns (True, q) \<Longrightarrow>
    \<exists>bs. selected h this bs t \<and> q = fold base_cast bs ptr"
  and walk_selected: "walk n h bases ptr t = Returns (True, q) \<Longrightarrow>
    \<exists>pre b post bs. bases = pre @ b # post \<and> (\<forall>x \<in> set pre. \<forall>c. \<not> reaches h (info x) c t) \<and>
       selected h (info b) bs t \<and> q = fold base_cast bs (base_cast b ptr)"
proof (induction n h this ptr t and n h bases ptr t arbitrary: q and q rule: cast_walk.induct)
  case (1 h this ptr t)
  then show ?case by simp
next
  case (2 n h this ptr t)
  from "2.prems" obtain ci where ci: "deref h this = Some ci"
    by (auto split: option.splits)
  show ?case
  proof (cases "t = type_' ci")
    case True
    with ci "2.prems" have "selected h this [] t \<and> q = fold base_cast [] ptr" by simp
    then show ?thesis by blast
  next
    case False
    with ci "2.prems" obtain found ptr' where dp: "direct_parent h (bases_' ci) ptr t = Returns (found, ptr')"
      by (auto split: outcome.splits)
    show ?thesis
    proof (cases found)
      case True
      with ci False dp "2.prems" have q: "q = ptr'" by simp
      from direct_parent_found [of h "bases_' ci" ptr t ptr'] dp True
      obtain d where d: "find (\<lambda>d. map_option type_' (deref h (info d)) = Some t) (bases_' ci) = Some d"
        "ptr' = base_cast d ptr" by auto
      with ci q False have "selected h this [d] t \<and> q = fold base_cast [d] ptr" by simp
      then show ?thesis by blast
    next
      case nf: False
      with ci False dp "2.prems" have w: "walk n h (bases_' ci) ptr' t = Returns (True, q)" by simp
      from direct_parent_False [of h "bases_' ci" ptr t ptr'] dp nf have p: "ptr' = ptr" by simp
      from direct_parent_not_found [of h "bases_' ci" ptr t ptr'] dp nf
      have nd: "find (\<lambda>d. map_option type_' (deref h (info d)) = Some t) (bases_' ci) = None" by simp
      from "2.IH" [OF ci False dp refl nf w] p
      obtain pre b post bs where b: "bases_' ci = pre @ b # post"
        "\<forall>x \<in> set pre. \<forall>c. \<not> reaches h (info x) c t" "selected h (info b) bs t"
        "q = fold base_cast bs (base_cast b ptr)" by auto
      with ci False nd have "selected h this (b # bs) t \<and> q = fold base_cast (b # bs) ptr"
        by auto
      then show ?thesis by blast
    qed
  qed
next
  case (3 n h ptr t)
  then show ?case by simp
next
  case (4 n h base bases ptr t)
  from "4.prems" obtain found p where c: "cast n h (info base) (base_cast base ptr) t = Returns (found, p)"
    by (auto split: outcome.splits)
  show ?case
  proof (cases found)
    case True
    with c "4.prems" have pq: "p = q" by simp
    from "4.IH"(1) [of q] c True pq
    obtain bs where "selected h (info base) bs t" "q = fold base_cast bs (base_cast base ptr)"
      by auto
    then have "base # bases = [] @ base # bases \<and> (\<forall>x \<in> set []. \<forall>c. \<not> reaches h (info x) c t) \<and>
       selected h (info base) bs t \<and> q = fold base_cast bs (base_cast base ptr)" by simp
    then show ?thesis by blast
  next
    case False
    with c "4.prems" have w: "walk n h bases ptr t = Returns (True, q)" by simp
    from c False have "cast n h (info base) (base_cast base ptr) t = Returns (False, p)" by simp
    from cast_False_unreachable [OF this] have nr: "\<forall>c. \<not> reaches h (info base) c t" by blast
    from "4.IH"(2) [OF c refl False w]
    obtain pre b post bs where b: "bases = pre @ b # post"
      "\<forall>x \<in> set pre. \<forall>c. \<not> reaches h (info x) c t" "selected h (info b) bs t"
      "q = fold base_cast bs (base_cast b ptr)" by blast
    with nr have "base # bases = (base # pre) @ b # post \<and>
       (\<forall>x \<in> set (base # pre). \<forall>c. \<not> reaches h (info x) c t) \<and>
       selected h (info b) bs t \<and> q = fold base_cast bs (base_cast b ptr)" by simp
    then show ?thesis by blast
  qed
qed

subsection \<open>The diamonds are built and have no cycle\<close>

lemma fresh_ABCD_built: "built fresh_ABCD"
  by (rule built.fresh) (auto simp: fresh_ABCD_def new_class_info_def deref_def split: if_splits)

lemma diamond_built: "built diamond"
proof -
  let ?A1 = "\<lparr>type_' = 0, bases_' = [], derivatives_' = [2], objects_' = Map.empty\<rparr> :: class_info"
  let ?A2 = "\<lparr>type_' = 0, bases_' = [], derivatives_' = [2, 3], objects_' = Map.empty\<rparr> :: class_info"
  let ?B1 = "\<lparr>type_' = 1, bases_' = [\<lparr>info = 1, base_cast = (\<lambda>p. p + 16)\<rparr>],
               derivatives_' = [], objects_' = Map.empty\<rparr> :: class_info"
  let ?B2 = "\<lparr>type_' = 1, bases_' = [\<lparr>info = 1, base_cast = (\<lambda>p. p + 16)\<rparr>],
               derivatives_' = [4], objects_' = Map.empty\<rparr> :: class_info"
  let ?C1 = "\<lparr>type_' = 2, bases_' = [\<lparr>info = 1, base_cast = (\<lambda>p. p + 4)\<rparr>],
               derivatives_' = [], objects_' = Map.empty\<rparr> :: class_info"
  let ?C2 = "\<lparr>type_' = 2, bases_' = [\<lparr>info = 1, base_cast = (\<lambda>p. p + 4)\<rparr>],
               derivatives_' = [4], objects_' = Map.empty\<rparr> :: class_info"
  let ?D1 = "\<lparr>type_' = 3, bases_' = [\<lparr>info = 2, base_cast = (\<lambda>p. p + 8)\<rparr>],
               derivatives_' = [], objects_' = Map.empty\<rparr> :: class_info"
  let ?D2 = "\<lparr>type_' = 3, bases_' = [\<lparr>info = 2, base_cast = (\<lambda>p. p + 8)\<rparr>,
                                      \<lparr>info = 3, base_cast = (\<lambda>p. p + 2)\<rparr>],
               derivatives_' = [], objects_' = Map.empty\<rparr> :: class_info"
  let ?h1 = "fresh_ABCD(2 \<mapsto> ?B1, 1 \<mapsto> ?A1)"
  let ?h2 = "?h1(3 \<mapsto> ?C1, 1 \<mapsto> ?A2)"
  let ?h3 = "?h2(4 \<mapsto> ?D1, 2 \<mapsto> ?B2)"
  let ?h4 = "?h3(4 \<mapsto> ?D2, 3 \<mapsto> ?C2)"
  have 1: "add_base False fresh_ABCD 2 1 (\<lambda>p. p + 16) = Returned () ?h1"
    by (simp add: add_base_def fresh_ABCD_def deref_def new_class_info_def)
  have 2: "add_base False ?h1 3 1 (\<lambda>p. p + 4) = Returned () ?h2"
    by (simp add: add_base_def fresh_ABCD_def deref_def new_class_info_def)
  have 3: "add_base False ?h2 4 2 (\<lambda>p. p + 8) = Returned () ?h3"
    by (simp add: add_base_def fresh_ABCD_def deref_def new_class_info_def)
  have 4: "add_base False ?h3 4 3 (\<lambda>p. p + 2) = Returned () ?h4"
    by (simp add: add_base_def fresh_ABCD_def deref_def new_class_info_def)
  have d: "?h4 = diamond"
    by (simp add: diamond_def fresh_ABCD_def fun_eq_iff)
  from built.linked [OF built.linked [OF built.linked [OF built.linked [OF fresh_ABCD_built 1] 2] 3] 4] d
  show ?thesis by simp
qed

lemma diamond_swapped_built: "built diamond_swapped"
proof -
  let ?A1 = "\<lparr>type_' = 0, bases_' = [], derivatives_' = [2], objects_' = Map.empty\<rparr> :: class_info"
  let ?A2 = "\<lparr>type_' = 0, bases_' = [], derivatives_' = [2, 3], objects_' = Map.empty\<rparr> :: class_info"
  let ?B1 = "\<lparr>type_' = 1, bases_' = [\<lparr>info = 1, base_cast = (\<lambda>p. p + 16)\<rparr>],
               derivatives_' = [], objects_' = Map.empty\<rparr> :: class_info"
  let ?B2 = "\<lparr>type_' = 1, bases_' = [\<lparr>info = 1, base_cast = (\<lambda>p. p + 16)\<rparr>],
               derivatives_' = [4], objects_' = Map.empty\<rparr> :: class_info"
  let ?C1 = "\<lparr>type_' = 2, bases_' = [\<lparr>info = 1, base_cast = (\<lambda>p. p + 4)\<rparr>],
               derivatives_' = [], objects_' = Map.empty\<rparr> :: class_info"
  let ?C2 = "\<lparr>type_' = 2, bases_' = [\<lparr>info = 1, base_cast = (\<lambda>p. p + 4)\<rparr>],
               derivatives_' = [4], objects_' = Map.empty\<rparr> :: class_info"
  let ?D1 = "\<lparr>type_' = 3, bases_' = [\<lparr>info = 3, base_cast = (\<lambda>p. p + 2)\<rparr>],
               derivatives_' = [], objects_' = Map.empty\<rparr> :: class_info"
  let ?D2 = "\<lparr>type_' = 3, bases_' = [\<lparr>info = 3, base_cast = (\<lambda>p. p + 2)\<rparr>,
                                      \<lparr>info = 2, base_cast = (\<lambda>p. p + 8)\<rparr>],
               derivatives_' = [], objects_' = Map.empty\<rparr> :: class_info"
  let ?h1 = "fresh_ABCD(2 \<mapsto> ?B1, 1 \<mapsto> ?A1)"
  let ?h2 = "?h1(3 \<mapsto> ?C1, 1 \<mapsto> ?A2)"
  let ?h3 = "?h2(4 \<mapsto> ?D1, 3 \<mapsto> ?C2)"
  let ?h4 = "?h3(4 \<mapsto> ?D2, 2 \<mapsto> ?B2)"
  have 1: "add_base False fresh_ABCD 2 1 (\<lambda>p. p + 16) = Returned () ?h1"
    by (simp add: add_base_def fresh_ABCD_def deref_def new_class_info_def)
  have 2: "add_base False ?h1 3 1 (\<lambda>p. p + 4) = Returned () ?h2"
    by (simp add: add_base_def fresh_ABCD_def deref_def new_class_info_def)
  have 3: "add_base False ?h2 4 3 (\<lambda>p. p + 2) = Returned () ?h3"
    by (simp add: add_base_def fresh_ABCD_def deref_def new_class_info_def)
  have 4: "add_base False ?h3 4 2 (\<lambda>p. p + 8) = Returned () ?h4"
    by (simp add: add_base_def fresh_ABCD_def deref_def new_class_info_def)
  have d: "?h4 = diamond_swapped"
    by (simp add: diamond_swapped_def fresh_ABCD_def fun_eq_iff)
  from built.linked [OF built.linked [OF built.linked [OF built.linked [OF fresh_ABCD_built 1] 2] 3] 4] d
  show ?thesis by simp
qed

lemma diamond_acyclic: "acyclic (base_rel diamond)"
  by (rule acyclic_by_address) (auto simp: diamond_def deref_def split: if_splits)

lemma diamond_swapped_acyclic: "acyclic (base_rel diamond_swapped)"
  by (rule acyclic_by_address) (auto simp: diamond_swapped_def deref_def split: if_splits)

subsection \<open>Claims about \<^verbatim>\<open>cast\<close>\<close>

text \<open>
  C8, as amended. In a hierarchy built through \<^verbatim>\<open>add_base\<close> without cycles among its
  BaseLinks, the recursive cast, called on a live descriptor, terminates on every input:
  from some recursion depth on it returns one and the same result \<open>res\<close>, and no
  recursion depth gives any other result. When the requested type is reachable through
  BaseLinks, exactly one chain of BaseLinks to it is selected by the order of
  registration (at each descriptor the first direct base of the requested type, and
  failing that the first base from which the type is reachable), and the result is a
  success whose address is the per-link adjustments applied along that chain.
\<close>

theorem cast_terminates:
  assumes b: "built h" and ac: "acyclic (base_rel h)"
    and live: "deref h this \<noteq> None"
  shows "\<exists>res. (\<exists>n. \<forall>m \<ge> n. cast m h this ptr t = Returns res) \<and>
           (\<forall>m res'. cast m h this ptr t = Returns res' \<longrightarrow> res' = res) \<and>
           ((\<exists>bs. reaches h this bs t) \<longrightarrow>
              (\<exists>bs. selected h this bs t \<and> (\<forall>bs'. selected h this bs' t \<longrightarrow> bs' = bs) \<and>
                    res = (True, fold base_cast bs ptr)))"
proof -
  from built_finite_closed [OF b] have fin: "finite (dom h)" and cl: "closed h" by simp_all
  from acyclic_depth [OF fin cl ac live] obtain n where n: "depth_le n h this" ..
  from cast_total [OF n] obtain res where res: "cast n h this ptr t = Returns res" ..
  have 1: "\<forall>m \<ge> n. cast m h this ptr t = Returns res"
    using cast_mono [of n h this ptr t] res by simp
  have 2: "\<forall>m res'. cast m h this ptr t = Returns res' \<longrightarrow> res' = res"
    using cast_deterministic [OF res] by blast
  have 3: "(\<exists>bs. reaches h this bs t) \<longrightarrow>
              (\<exists>bs. selected h this bs t \<and> (\<forall>bs'. selected h this bs' t \<longrightarrow> bs' = bs) \<and>
                    res = (True, fold base_cast bs ptr))"
  proof
    assume r: "\<exists>bs. reaches h this bs t"
    obtain ok q where okq: "res = (ok, q)" by (cases res)
    have ok: ok
    proof (rule ccontr)
      assume "\<not> ok"
      with res okq have "cast n h this ptr t = Returns (False, q)" by simp
      from cast_False_unreachable [OF this] r show False by blast
    qed
    with res okq have "cast n h this ptr t = Returns (True, q)" by simp
    from cast_selected [OF this] obtain bs where s: "selected h this bs t"
      and q: "q = fold base_cast bs ptr" by blast
    from selected_unique [OF s] have "\<forall>bs'. selected h this bs' t \<longrightarrow> bs' = bs" by blast
    with s q ok okq
    show "\<exists>bs. selected h this bs t \<and> (\<forall>bs'. selected h this bs' t \<longrightarrow> bs' = bs) \<and>
                    res = (True, fold base_cast bs ptr)" by blast
  qed
  from 1 2 3 show ?thesis by blast
qed

text \<open>
  In the diamond, the chain through \<open>B\<close>, the base of \<open>D\<close> registered first, is selected and
  the chain through \<open>C\<close>, which also reaches \<open>A\<close>, is not; casting the address 100 from \<open>D\<close>
  to \<open>A\<close> gives \<open>100 + 8 + 16\<close>.
\<close>

theorem cast_terminates_witness:
  "built diamond \<and> acyclic (base_rel diamond) \<and> deref diamond 4 \<noteq> None \<and>
   reaches diamond 4 [\<lparr>info = 3, base_cast = (\<lambda>p. p + 2)\<rparr>, \<lparr>info = 1, base_cast = (\<lambda>p. p + 4)\<rparr>] 0 \<and>
   selected diamond 4 [\<lparr>info = 2, base_cast = (\<lambda>p. p + 8)\<rparr>, \<lparr>info = 1, base_cast = (\<lambda>p. p + 16)\<rparr>] 0 \<and>
   \<not> selected diamond 4 [\<lparr>info = 3, base_cast = (\<lambda>p. p + 2)\<rparr>, \<lparr>info = 1, base_cast = (\<lambda>p. p + 4)\<rparr>] 0 \<and>
   (\<exists>n. \<forall>m \<ge> n. cast m diamond 4 100 0 = Returns (True, 124))"
proof -
  let ?viaB = "[\<lparr>info = 2, base_cast = (\<lambda>p. p + 8)\<rparr>, \<lparr>info = 1, base_cast = (\<lambda>p. p + 16)\<rparr>]"
  let ?viaC = "[\<lparr>info = 3, base_cast = (\<lambda>p. p + 2)\<rparr>, \<lparr>info = 1, base_cast = (\<lambda>p. p + 4)\<rparr>]"
  have live: "deref diamond 4 \<noteq> None" by (simp add: diamond_def deref_def)
  have r: "reaches diamond 4 ?viaC 0"
    by (simp add: diamond_def deref_def)
  have c: "cast 3 diamond 4 100 0 = Returns (True, 124)"
    by (simp add: diamond_def deref_def numeral_3_eq_3)
  from cast_terminates [OF diamond_built diamond_acyclic live, of 100 0] r
  obtain res bs where a: "\<exists>n. \<forall>m \<ge> n. cast m diamond 4 100 0 = Returns res"
    and d: "\<forall>m res'. cast m diamond 4 100 0 = Returns res' \<longrightarrow> res' = res"
    and s: "selected diamond 4 bs 0"
    and u: "\<forall>bs'. selected diamond 4 bs' 0 \<longrightarrow> bs' = bs"
    and e: "res = (True, fold base_cast bs 100)" by blast
  from d c have res: "res = (True, 124)" by blast
  have sB: "selected diamond 4 ?viaB 0"
  proof -
    have "\<exists>pre post. [\<lparr>info = 2, base_cast = (\<lambda>p. p + 8)\<rparr>, \<lparr>info = 3, base_cast = (\<lambda>p. p + 2)\<rparr>] =
            pre @ \<lparr>info = 2, base_cast = (\<lambda>p. p + 8)\<rparr> # post \<and>
            (\<forall>x \<in> set pre. \<forall>c. \<not> reaches diamond (info x) c 0)"
      by (rule exI [of _ "[]"]) simp
    then show ?thesis by (simp add: diamond_def deref_def)
  qed
  have nC: "\<not> selected diamond 4 ?viaC 0"
  proof
    assume "selected diamond 4 ?viaC 0"
    with u sB have "?viaC = ?viaB" by metis
    then show False by simp
  qed
  from a res diamond_built diamond_acyclic live r sB nC show ?thesis by simp
qed

text \<open>
  C8 as stated fails in the diamond: the per-link adjustments determine two addresses
  for the cast of 100 from \<open>D\<close> to \<open>A\<close>, 124 along the chain through \<open>B\<close> and 106 along the
  chain through \<open>C\<close>, so they determine no unique one. What the cast returns depends on
  the order of registration: 124 in \<open>diamond\<close>, and 106 in \<open>diamond_swapped\<close>, which has
  the same links with the same adjustments.
\<close>

theorem cast_diamond_counterexample:
  "built diamond \<and> acyclic (base_rel diamond) \<and>
   built diamond_swapped \<and> acyclic (base_rel diamond_swapped) \<and>
   (\<forall>r. map_option (\<lambda>ci. set (bases_' ci)) (deref diamond_swapped r) =
        map_option (\<lambda>ci. set (bases_' ci)) (deref diamond r)) \<and>
   reaches diamond 4 [\<lparr>info = 2, base_cast = (\<lambda>p. p + 8)\<rparr>, \<lparr>info = 1, base_cast = (\<lambda>p. p + 16)\<rparr>] 0 \<and>
   fold base_cast [\<lparr>info = 2, base_cast = (\<lambda>p. p + 8)\<rparr>, \<lparr>info = 1, base_cast = (\<lambda>p. p + 16)\<rparr>] 100 = 124 \<and>
   reaches diamond 4 [\<lparr>info = 3, base_cast = (\<lambda>p. p + 2)\<rparr>, \<lparr>info = 1, base_cast = (\<lambda>p. p + 4)\<rparr>] 0 \<and>
   fold base_cast [\<lparr>info = 3, base_cast = (\<lambda>p. p + 2)\<rparr>, \<lparr>info = 1, base_cast = (\<lambda>p. p + 4)\<rparr>] 100 = 106 \<and>
   cast 3 diamond 4 100 0 = Returns (True, 124) \<and>
   cast 3 diamond_swapped 4 100 0 = Returns (True, 106)"
proof -
  have 1: "\<forall>r. map_option (\<lambda>ci. set (bases_' ci)) (deref diamond_swapped r) =
        map_option (\<lambda>ci. set (bases_' ci)) (deref diamond r)"
    by (auto simp: diamond_def diamond_swapped_def deref_def)
  have 2: "reaches diamond 4 [\<lparr>info = 2, base_cast = (\<lambda>p. p + 8)\<rparr>, \<lparr>info = 1, base_cast = (\<lambda>p. p + 16)\<rparr>] 0"
    "reaches diamond 4 [\<lparr>info = 3, base_cast = (\<lambda>p. p + 2)\<rparr>, \<lparr>info = 1, base_cast = (\<lambda>p. p + 4)\<rparr>] 0"
    by (simp_all add: diamond_def deref_def)
  have 3: "cast 3 diamond 4 100 0 = Returns (True, 124)"
    "cast 3 diamond_swapped 4 100 0 = Returns (True, 106)"
    by (simp_all add: diamond_def diamond_swapped_def deref_def numeral_3_eq_3)
  from 1 2 3 diamond_built diamond_acyclic diamond_swapped_built diamond_swapped_acyclic
  show ?thesis by simp
qed


lemma direct_parent_find:
  "\<forall>b \<in> set bases. deref h (info b) \<noteq> None \<Longrightarrow>
   find (\<lambda>b. map_option type_' (deref h (info b)) = Some t) bases = Some b \<Longrightarrow>
   direct_parent h bases ptr t = Returns (True, base_cast b ptr)"
  by (induction bases) (auto split: if_splits)

text \<open>
  C9. When \<^verbatim>\<open>cast\<close> returns \<^verbatim>\<open>false\<close>, the in/out pointer has the value it had before
  the call.
\<close>

theorem cast_failure_keeps_ptr:
  "cast n h this ptr t = Returns (ok, q) \<Longrightarrow> \<not> ok \<Longrightarrow> q = ptr"
  using cast_False [of n h this ptr t q] by simp

text \<open>Casting from \<open>C\<close> to a type that is not in the hierarchy fails and leaves 100.\<close>

theorem cast_failure_keeps_ptr_witness:
  "\<exists>q. cast 3 hier_ABC 3 100 7 = Returns (False, q) \<and> q = 100"
proof -
  have c: "cast 3 hier_ABC 3 100 7 = Returns (False, 100)"
    by (simp add: hier_ABC_def deref_def numeral_3_eq_3)
  from cast_failure_keeps_ptr [OF c] c show ?thesis by simp
qed

text \<open>
  C1, as amended. In a hierarchy built through \<^verbatim>\<open>add_base\<close> without cycles among its
  BaseLinks, \<^verbatim>\<open>cast\<close> called on a live descriptor returns, for every address and every
  requested type, a result \<open>res\<close> (the same for every sufficient recursion depth) such
  that:
  the requested type being the descriptor's own, the result is a success with the
  address unchanged; otherwise, a direct base having the requested type, the result is
  a success with the adjustment of the first such base in registration order; the
  requested type being reachable through BaseLinks, the result is a success whose
  address is the per-link adjustments applied once per link along a chain to it; the
  requested type not being reachable, the result is a failure.
\<close>

theorem cast_result:
  assumes b: "built h" and ac: "acyclic (base_rel h)"
    and ci: "deref h this = Some ci"
  shows "\<exists>n res. (\<forall>m \<ge> n. cast m h this ptr t = Returns res) \<and>
           (t = type_' ci \<longrightarrow> res = (True, ptr)) \<and>
           (t \<noteq> type_' ci \<longrightarrow>
              (\<forall>b. find (\<lambda>b. map_option type_' (deref h (info b)) = Some t) (bases_' ci) = Some b \<longrightarrow>
                 res = (True, base_cast b ptr))) \<and>
           ((\<exists>bs. reaches h this bs t) \<longrightarrow>
              fst res \<and> (\<exists>bs. reaches h this bs t \<and> snd res = fold base_cast bs ptr)) \<and>
           ((\<nexists>bs. reaches h this bs t) \<longrightarrow> res = (False, ptr))"
proof -
  from built_finite_closed [OF b] have fin: "finite (dom h)" and cl: "closed h" by simp_all
  from ci have live: "deref h this \<noteq> None" by simp
  from acyclic_depth [OF fin cl ac live] obtain n where n: "depth_le n h this" ..
  then obtain k where k: "n = Suc k" by (cases n) auto
  from cast_total [OF n] obtain res where res: "cast n h this ptr t = Returns res" ..
  obtain ok q where okq: "res = (ok, q)" by (cases res)
  have 1: "\<forall>m \<ge> n. cast m h this ptr t = Returns res"
    using cast_mono [of n h this ptr t] res by simp
  have 2: "t = type_' ci \<longrightarrow> res = (True, ptr)"
    using res ci unfolding k by auto
  have 3: "t \<noteq> type_' ci \<longrightarrow>
      (\<forall>b. find (\<lambda>b. map_option type_' (deref h (info b)) = Some t) (bases_' ci) = Some b \<longrightarrow>
         res = (True, base_cast b ptr))"
  proof (intro impI allI)
    fix b
    assume t: "t \<noteq> type_' ci"
      and f: "find (\<lambda>b. map_option type_' (deref h (info b)) = Some t) (bases_' ci) = Some b"
    from cl ci have "\<forall>b \<in> set (bases_' ci). deref h (info b) \<noteq> None"
      unfolding closed_def by blast
    from direct_parent_find [OF this f, of ptr] res ci t
    show "res = (True, base_cast b ptr)" unfolding k by simp
  qed
  have 4: "(\<exists>bs. reaches h this bs t) \<longrightarrow>
      fst res \<and> (\<exists>bs. reaches h this bs t \<and> snd res = fold base_cast bs ptr)"
  proof
    assume r: "\<exists>bs. reaches h this bs t"
    have ok: ok
    proof (rule ccontr)
      assume "\<not> ok"
      with res okq have "cast n h this ptr t = Returns (False, q)" by simp
      from cast_False_unreachable [OF this] r show False by blast
    qed
    with res okq have "cast n h this ptr t = Returns (True, q)" by simp
    from cast_True [OF this] ok okq
    show "fst res \<and> (\<exists>bs. reaches h this bs t \<and> snd res = fold base_cast bs ptr)" by simp
  qed
  have 5: "(\<nexists>bs. reaches h this bs t) \<longrightarrow> res = (False, ptr)"
  proof
    assume nr: "\<nexists>bs. reaches h this bs t"
    have "\<not> ok"
    proof
      assume ok
      with res okq have "cast n h this ptr t = Returns (True, q)" by simp
      from cast_True [OF this] nr show False by blast
    qed
    with res okq have "cast n h this ptr t = Returns (False, q)" by simp
    from cast_False [OF this] \<open>\<not> ok\<close> okq show "res = (False, ptr)" by simp
  qed
  from 1 2 3 4 5 show ?thesis by blast
qed

text \<open>
  In the example hierarchy, \<open>A\<close> is not a direct base of \<open>C\<close>: the cast from \<open>C\<close> to \<open>A\<close>
  walks the chain \<open>C \<rightarrow> B \<rightarrow> A\<close> and returns \<open>100 + 8 + 16\<close>.
\<close>

theorem cast_result_witness:
  "built hier_ABC \<and> acyclic (base_rel hier_ABC) \<and>
   deref hier_ABC 3 =
     Some \<lparr>type_' = 2, bases_' = [\<lparr>info = 2, base_cast = (\<lambda>p. p + 8)\<rparr>],
           derivatives_' = [], objects_' = Map.empty\<rparr> \<and>
   reaches hier_ABC 3 [\<lparr>info = 2, base_cast = (\<lambda>p. p + 8)\<rparr>, \<lparr>info = 1, base_cast = (\<lambda>p. p + 16)\<rparr>] 0 \<and>
   (\<exists>n. \<forall>m \<ge> n. cast m hier_ABC 3 100 0 = Returns (True, 124))"
proof -
  have ci: "deref hier_ABC 3 =
     Some \<lparr>type_' = 2, bases_' = [\<lparr>info = 2, base_cast = (\<lambda>p. p + 8)\<rparr>],
           derivatives_' = [], objects_' = Map.empty\<rparr>"
    by (simp add: hier_ABC_def deref_def)
  have r: "reaches hier_ABC 3 [\<lparr>info = 2, base_cast = (\<lambda>p. p + 8)\<rparr>, \<lparr>info = 1, base_cast = (\<lambda>p. p + 16)\<rparr>] 0"
    by (simp add: hier_ABC_def deref_def)
  have c: "cast 3 hier_ABC 3 100 0 = Returns (True, 124)"
    by (simp add: hier_ABC_def deref_def numeral_3_eq_3)
  from cast_result [OF hier_ABC_built hier_ABC_acyclic ci, of 100 0]
  obtain n res where a: "\<forall>m \<ge> n. cast m hier_ABC 3 100 0 = Returns res" by blast
  then have "cast (max n 3) hier_ABC 3 100 0 = Returns res" by simp
  moreover from cast_mono [of 3 hier_ABC 3 100 0 "max n 3"] c
  have "cast (max n 3) hier_ABC 3 100 0 = Returns (True, 124)" by simp
  ultimately have "res = (True, 124)" by simp
  with a hier_ABC_built hier_ABC_acyclic ci r show ?thesis by blast
qed

text \<open>
  C1 as stated fails where a descriptor is its own base, a table that \<^verbatim>\<open>add_base\<close>
  builds (it rejects a repeated base, not a cycle; \<^verbatim>\<open>inherit<T>()\<close> on the class of
  \<open>T\<close> itself passes the check \<^verbatim>\<open>std::is_base_of<T, T>\<close> and makes this call): the cast
  to a type that is not in the hierarchy returns at no recursion depth, so it does not
  return failure.
\<close>

theorem cast_self_base_counterexample:
  "add_base False [1 \<mapsto> new_class_info 0] 1 1 (\<lambda>p. p) = Returned () self_base \<and>
   (\<forall>n. cast n self_base 1 100 1 = OutOfFuel)"
proof -
  have "cast n self_base 1 100 1 = OutOfFuel" for n
    by (induction n) (simp_all add: self_base_def deref_def)
  moreover have "add_base False [1 \<mapsto> new_class_info 0] 1 1 (\<lambda>p. p) = Returned () self_base"
    by (simp add: add_base_def self_base_def deref_def new_class_info_def)
  ultimately show ?thesis by simp
qed

section \<open>Properties of \<^verbatim>\<open>add_base\<close>\<close>

text \<open>
  C4, as amended. \<^verbatim>\<open>add_base\<close> on a target that is already a registered base fails: with
  \<^verbatim>\<open>NDEBUG\<close> it throws \<^verbatim>\<open>std::runtime_error("duplicated base class")\<close> and the heap
  is the heap before the call, bases and derivatives included; with assertions enabled
  the assertion aborts the process. On a target that is not yet a base it appends the
  BaseLink to the bases of the descriptor and the back-reference to the derivatives of
  the target, and changes no other descriptor.
\<close>

theorem add_base_registers_or_rejects:
  assumes ci: "deref h this = Some ci"
  shows "(info' \<in> info ` set (bases_' ci) \<longrightarrow>
            add_base True h this info' cast' = Thrown ''duplicated base class'' h \<and>
            add_base False h this info' cast' = Aborted ''duplicated inheritance'') \<and>
         (info' \<notin> info ` set (bases_' ci) \<longrightarrow> deref h info' = Some bi \<longrightarrow>
            (\<exists>h'. add_base NDEBUG h this info' cast' = Returned () h' \<and>
               map_option bases_' (deref h' this) = Some (bases_' ci @ [\<lparr>info = info', base_cast = cast'\<rparr>]) \<and>
               map_option derivatives_' (deref h' info') = Some (derivatives_' bi @ [this]) \<and>
               (this \<noteq> info' \<longrightarrow>
                  deref h' this = Some (ci\<lparr>bases_' := bases_' ci @ [\<lparr>info = info', base_cast = cast'\<rparr>]\<rparr>) \<and>
                  deref h' info' = Some (bi\<lparr>derivatives_' := derivatives_' bi @ [this]\<rparr>)) \<and>
               (\<forall>r. r \<noteq> this \<longrightarrow> r \<noteq> info' \<longrightarrow> h' r = h r)))"
proof -
  have dup: "info' \<in> info ` set (bases_' ci) \<Longrightarrow> \<exists>it. find (\<lambda>base. info base = info') (bases_' ci) = Some it"
    by (cases "find (\<lambda>base. info base = info') (bases_' ci)") (auto simp: find_None_iff)
  have nodup: "info' \<notin> info ` set (bases_' ci) \<Longrightarrow> find (\<lambda>base. info base = info') (bases_' ci) = None"
    by (auto simp: find_None_iff)
  have 1: "info' \<in> info ` set (bases_' ci) \<longrightarrow>
            add_base True h this info' cast' = Thrown ''duplicated base class'' h \<and>
            add_base False h this info' cast' = Aborted ''duplicated inheritance''"
    using ci dup by (auto simp: add_base_def)
  have 2: "info' \<notin> info ` set (bases_' ci) \<longrightarrow> deref h info' = Some bi \<longrightarrow>
            (\<exists>h'. add_base NDEBUG h this info' cast' = Returned () h' \<and>
               map_option bases_' (deref h' this) = Some (bases_' ci @ [\<lparr>info = info', base_cast = cast'\<rparr>]) \<and>
               map_option derivatives_' (deref h' info') = Some (derivatives_' bi @ [this]) \<and>
               (this \<noteq> info' \<longrightarrow>
                  deref h' this = Some (ci\<lparr>bases_' := bases_' ci @ [\<lparr>info = info', base_cast = cast'\<rparr>]\<rparr>) \<and>
                  deref h' info' = Some (bi\<lparr>derivatives_' := derivatives_' bi @ [this]\<rparr>)) \<and>
               (\<forall>r. r \<noteq> this \<longrightarrow> r \<noteq> info' \<longrightarrow> h' r = h r))"
  proof (intro impI)
    assume n: "info' \<notin> info ` set (bases_' ci)" and bi: "deref h info' = Some bi"
    from ci have this0: "this \<noteq> 0" by (auto simp: deref_def split: if_splits)
    from bi have info0: "info' \<noteq> 0" by (auto simp: deref_def split: if_splits)
    show "\<exists>h'. add_base NDEBUG h this info' cast' = Returned () h' \<and>
               map_option bases_' (deref h' this) = Some (bases_' ci @ [\<lparr>info = info', base_cast = cast'\<rparr>]) \<and>
               map_option derivatives_' (deref h' info') = Some (derivatives_' bi @ [this]) \<and>
               (this \<noteq> info' \<longrightarrow>
                  deref h' this = Some (ci\<lparr>bases_' := bases_' ci @ [\<lparr>info = info', base_cast = cast'\<rparr>]\<rparr>) \<and>
                  deref h' info' = Some (bi\<lparr>derivatives_' := derivatives_' bi @ [this]\<rparr>)) \<and>
               (\<forall>r. r \<noteq> this \<longrightarrow> r \<noteq> info' \<longrightarrow> h' r = h r)"
    proof (cases "this = info'")
      case True
      with ci bi have "bi = ci" by simp
      with True ci nodup [OF n] this0 show ?thesis
        by (simp add: add_base_def deref_def)
    next
      case False
      with ci bi nodup [OF n] this0 info0 show ?thesis
        by (simp add: add_base_def deref_def)
    qed
  qed
  from 1 2 show ?thesis by blast
qed

theorem add_base_registers_or_rejects_witness:
  "deref hier_ABC 3 =
     Some \<lparr>type_' = 2, bases_' = [\<lparr>info = 2, base_cast = (\<lambda>p. p + 8)\<rparr>],
           derivatives_' = [], objects_' = Map.empty\<rparr> \<and>
   add_base True hier_ABC 3 2 (\<lambda>p. p + 8) = Thrown ''duplicated base class'' hier_ABC \<and>
   add_base False hier_ABC 3 2 (\<lambda>p. p + 8) = Aborted ''duplicated inheritance'' \<and>
   (\<exists>h'. add_base True hier_ABC 3 1 (\<lambda>p. p + 24) = Returned () h' \<and>
      map_option bases_' (deref h' 3) =
        Some [\<lparr>info = 2, base_cast = (\<lambda>p. p + 8)\<rparr>, \<lparr>info = 1, base_cast = (\<lambda>p. p + 24)\<rparr>] \<and>
      map_option derivatives_' (deref h' 1) = Some [2, 3])"
proof -
  have ci: "deref hier_ABC 3 =
     Some \<lparr>type_' = 2, bases_' = [\<lparr>info = 2, base_cast = (\<lambda>p. p + 8)\<rparr>],
           derivatives_' = [], objects_' = Map.empty\<rparr>"
    by (simp add: hier_ABC_def deref_def)
  have bi: "deref hier_ABC 1 = Some \<lparr>type_' = 0, bases_' = [], derivatives_' = [2], objects_' = Map.empty\<rparr>"
    by (simp add: hier_ABC_def deref_def)
  from add_base_registers_or_rejects [OF ci, where info' = 2 and cast' = "\<lambda>p. p + 8"]
  have a: "add_base True hier_ABC 3 2 (\<lambda>p. p + 8) = Thrown ''duplicated base class'' hier_ABC \<and>
   add_base False hier_ABC 3 2 (\<lambda>p. p + 8) = Aborted ''duplicated inheritance''" by simp
  from add_base_registers_or_rejects [OF ci, where info' = 1 and cast' = "\<lambda>p. p + 24" and NDEBUG = True
      and bi = "\<lparr>type_' = 0, bases_' = [], derivatives_' = [2], objects_' = Map.empty\<rparr>"] bi
  have b: "\<exists>h'. add_base True hier_ABC 3 1 (\<lambda>p. p + 24) = Returned () h' \<and>
      map_option bases_' (deref h' 3) =
        Some [\<lparr>info = 2, base_cast = (\<lambda>p. p + 8)\<rparr>, \<lparr>info = 1, base_cast = (\<lambda>p. p + 24)\<rparr>] \<and>
      map_option derivatives_' (deref h' 1) = Some [2, 3]" by simp blast
  from ci a b show ?thesis by blast
qed

text \<open>
  C4 as stated fails in a build with assertions enabled: registering the base \<open>B\<close> of
  \<open>C\<close> a second time stops at \<^verbatim>\<open>assert(false && "duplicated inheritance")\<close>, which
  aborts the process. No error is raised to the caller (the \<^verbatim>\<open>throw\<close> is not reached),
  and there is no state after the call in which the table could be as it was.
\<close>

theorem add_base_assert_counterexample:
  "map_option (\<lambda>ci. map info (bases_' ci)) (deref hier_ABC 3) = Some [2] \<and>
   add_base False hier_ABC 3 2 (\<lambda>p. p + 8) = Aborted ''duplicated inheritance'' \<and>
   (\<forall>what h'. add_base False hier_ABC 3 2 (\<lambda>p. p + 8) \<noteq> Thrown what h')"
  by (simp add: add_base_def hier_ABC_def deref_def)

section \<open>Properties of the object registry\<close>

lemma find_in_derivatives_empty:
  "\<forall>x \<in> set ds. find_object n h x object = Returns None \<Longrightarrow>
   find_in_derivatives n h ds object None = Returns None"
  by (induction ds) auto

lemma find_in_derivatives_first:
  "\<forall>x \<in> set pre. find_object n h x object = Returns None \<Longrightarrow>
   find_object n h d object = Returns (Some H) \<Longrightarrow>
   find_in_derivatives n h (pre @ d # post) object None = Returns (Some H)"
  by (induction pre) auto

text \<open>
  C3, as amended. \<^verbatim>\<open>find_object\<close> on a live descriptor returns the handle of its own map when the
  address is a key of it. When it is not, the derivatives are searched in order, each by
  the recursive call: the first derivative whose search returns a non-empty handle
  decides the result, and the result is empty when every search returns empty. So in a
  three-level hierarchy \<open>A \<leftarrow> B \<leftarrow> C\<close> (\<open>B\<close> the derivative of \<open>A\<close>, \<open>C\<close> the derivative of
  \<open>B\<close>) with an address registered in the registry of \<open>C\<close>, and in that registry only,
  \<^verbatim>\<open>find_object\<close> called on \<open>A\<close> returns the handle that \<^verbatim>\<open>find_object\<close> called on \<open>C\<close>
  returns.
\<close>

theorem find_object_searches_derivatives:
  assumes ci: "deref h this = Some ci"
  shows "(objects_' ci object = Some handle \<longrightarrow> find_object (Suc n) h this object = Returns handle) \<and>
         (objects_' ci object = None \<longrightarrow> derivatives_' ci = pre @ d # post \<longrightarrow>
            (\<forall>x \<in> set pre. find_object n h x object = Returns None) \<longrightarrow>
            find_object n h d object = Returns (Some H) \<longrightarrow>
            find_object (Suc n) h this object = Returns (Some H)) \<and>
         (objects_' ci object = None \<longrightarrow>
            (\<forall>x \<in> set (derivatives_' ci). find_object n h x object = Returns None) \<longrightarrow>
            find_object (Suc n) h this object = Returns None) \<and>
         (objects_' ci object = None \<longrightarrow> derivatives_' ci = [b] \<longrightarrow>
            deref h b = Some cb \<longrightarrow> objects_' cb object = None \<longrightarrow> derivatives_' cb = [c] \<longrightarrow>
            deref h c = Some cc \<longrightarrow> objects_' cc object = Some handle \<longrightarrow>
            find_object (Suc (Suc (Suc n))) h this object = Returns handle \<and>
            find_object (Suc n) h c object = Returns handle)"
proof -
  have 1: "objects_' ci object = Some handle \<longrightarrow> find_object (Suc n) h this object = Returns handle"
    using ci by (simp add: to_local_def)
  have 2: "objects_' ci object = None \<longrightarrow> derivatives_' ci = pre @ d # post \<longrightarrow>
            (\<forall>x \<in> set pre. find_object n h x object = Returns None) \<longrightarrow>
            find_object n h d object = Returns (Some H) \<longrightarrow>
            find_object (Suc n) h this object = Returns (Some H)"
    using ci find_in_derivatives_first [of pre n h object d H post] by simp
  have 3: "objects_' ci object = None \<longrightarrow>
            (\<forall>x \<in> set (derivatives_' ci). find_object n h x object = Returns None) \<longrightarrow>
            find_object (Suc n) h this object = Returns None"
    using ci find_in_derivatives_empty [of "derivatives_' ci" n h object] by simp
  have 4: "objects_' ci object = None \<longrightarrow> derivatives_' ci = [b] \<longrightarrow>
            deref h b = Some cb \<longrightarrow> objects_' cb object = None \<longrightarrow> derivatives_' cb = [c] \<longrightarrow>
            deref h c = Some cc \<longrightarrow> objects_' cc object = Some handle \<longrightarrow>
            find_object (Suc (Suc (Suc n))) h this object = Returns handle \<and>
            find_object (Suc n) h c object = Returns handle"
    using ci by (cases handle) (simp_all add: to_local_def)
  from 1 2 3 4 show ?thesis by blast
qed

text \<open>
  The example registry: the address 100 is registered with \<open>C\<close> only, and the lookup
  through \<open>A\<close> finds the proxy object 7 that the lookup through \<open>C\<close> finds.
\<close>

theorem find_object_searches_derivatives_witness:
  "deref wrapped_C 1 = Some \<lparr>type_' = 0, bases_' = [], derivatives_' = [2], objects_' = Map.empty\<rparr> \<and>
   find_object 3 wrapped_C 1 100 = Returns (Some 7) \<and>
   find_object 1 wrapped_C 3 100 = Returns (Some 7)"
proof -
  have a: "deref wrapped_C 1 = Some \<lparr>type_' = 0, bases_' = [], derivatives_' = [2], objects_' = Map.empty\<rparr>"
    by (simp add: wrapped_C_def deref_def)
  have b: "deref wrapped_C 2 = Some \<lparr>type_' = 1, bases_' = [\<lparr>info = 1, base_cast = (\<lambda>p. p + 16)\<rparr>],
            derivatives_' = [3], objects_' = Map.empty\<rparr>"
    by (simp add: wrapped_C_def deref_def)
  have c: "deref wrapped_C 3 = Some \<lparr>type_' = 2, bases_' = [\<lparr>info = 2, base_cast = (\<lambda>p. p + 8)\<rparr>],
            derivatives_' = [], objects_' = [100 \<mapsto> Some 7]\<rparr>"
    by (simp add: wrapped_C_def deref_def)
  from find_object_searches_derivatives [OF a, where object = 100 and n = 0 and b = 2 and c = 3
      and handle = "Some 7", unfolded b c]
  have "find_object 3 wrapped_C 1 100 = Returns (Some 7) \<and>
        find_object 1 wrapped_C 3 100 = Returns (Some 7)"
    by (simp add: numeral_3_eq_3)
  with a show ?thesis by simp
qed

text \<open>
  C3 as stated fails where the address is a key of a base registry too: in the second
  example registry the address 100 of the \<open>C\<close> instance is registered with \<open>C\<close> (proxy 7)
  and with \<open>A\<close> (proxy 5); the lookup through \<open>A\<close> stops at the own map of \<open>A\<close> and
  returns another proxy than the lookup through \<open>C\<close>.
\<close>

theorem find_object_own_map_first_counterexample:
  "find_object 3 wrapped_AC 1 100 = Returns (Some 5) \<and>
   find_object 3 wrapped_AC 3 100 = Returns (Some 7)"
  by (simp add: wrapped_AC_def deref_def to_local_def numeral_3_eq_3)

text \<open>
  C7, as amended. With assertions enabled, registering an address that is already a key
  of the registry and removing an address that is not are stopped by the failed
  assertion; with \<^verbatim>\<open>NDEBUG\<close> both return and leave the heap as it was. Removing an
  address that is a key erases it from the own map of the descriptor (calling
  \<^verbatim>\<open>destroy\<close> with it when given), after which \<^verbatim>\<open>find_object\<close> for the address is the
  search of the derivatives: it returns empty when the search of every derivative
  does.
\<close>

theorem registry_add_remove:
  assumes ci: "deref h this = Some ci"
  shows "(objects_' ci object \<noteq> None \<longrightarrow>
            add_object False h this object handle = Aborted ''duplicate object'' \<and>
            add_object True h this object handle = Returned () h) \<and>
         (objects_' ci object = None \<longrightarrow>
            remove_object False h this object destroy = Aborted ''no object'' \<and>
            remove_object True h this object destroy = Returned [] h) \<and>
         (objects_' ci object \<noteq> None \<longrightarrow>
            (\<exists>h'. remove_object NDEBUG h this object destroy =
                     Returned (if destroy then [object] else []) h' \<and>
                   deref h' this = Some (ci\<lparr>objects_' := (objects_' ci)(object := None)\<rparr>) \<and>
                   (\<forall>r. r \<noteq> this \<longrightarrow> h' r = h r) \<and>
                   (\<forall>n. find_object (Suc n) h' this object =
                          find_in_derivatives n h' (derivatives_' ci) object None) \<and>
                   (\<forall>n. (\<forall>x \<in> set (derivatives_' ci). find_object n h' x object = Returns None) \<longrightarrow>
                          find_object (Suc n) h' this object = Returns None)))"
proof -
  from ci have this0: "this \<noteq> 0" by (auto simp: deref_def split: if_splits)
  have 1: "objects_' ci object \<noteq> None \<longrightarrow>
            add_object False h this object handle = Aborted ''duplicate object'' \<and>
            add_object True h this object handle = Returned () h"
    using ci by (auto simp: add_object_def)
  have 2: "objects_' ci object = None \<longrightarrow>
            remove_object False h this object destroy = Aborted ''no object'' \<and>
            remove_object True h this object destroy = Returned [] h"
    using ci by (auto simp: remove_object_def)
  have 3: "objects_' ci object \<noteq> None \<longrightarrow>
            (\<exists>h'. remove_object NDEBUG h this object destroy =
                     Returned (if destroy then [object] else []) h' \<and>
                   deref h' this = Some (ci\<lparr>objects_' := (objects_' ci)(object := None)\<rparr>) \<and>
                   (\<forall>r. r \<noteq> this \<longrightarrow> h' r = h r) \<and>
                   (\<forall>n. find_object (Suc n) h' this object =
                          find_in_derivatives n h' (derivatives_' ci) object None) \<and>
                   (\<forall>n. (\<forall>x \<in> set (derivatives_' ci). find_object n h' x object = Returns None) \<longrightarrow>
                          find_object (Suc n) h' this object = Returns None))"
  proof
    assume p: "objects_' ci object \<noteq> None"
    let ?h' = "h(this \<mapsto> ci\<lparr>objects_' := (objects_' ci)(object := None)\<rparr>)"
    from p ci have r: "remove_object NDEBUG h this object destroy =
                     Returned (if destroy then [object] else []) ?h'"
      by (auto simp: remove_object_def)
    from this0 have d: "deref ?h' this = Some (ci\<lparr>objects_' := (objects_' ci)(object := None)\<rparr>)"
      by (simp add: deref_def)
    have f: "find_object (Suc n) ?h' this object =
               find_in_derivatives n ?h' (derivatives_' ci) object None" for n
      using d by simp
    have e: "(\<forall>x \<in> set (derivatives_' ci). find_object n ?h' x object = Returns None) \<longrightarrow>
               find_object (Suc n) ?h' this object = Returns None" for n
      using f [of n] find_in_derivatives_empty [of "derivatives_' ci" n ?h' object] by simp
    from r d f e show "\<exists>h'. remove_object NDEBUG h this object destroy =
                     Returned (if destroy then [object] else []) h' \<and>
                   deref h' this = Some (ci\<lparr>objects_' := (objects_' ci)(object := None)\<rparr>) \<and>
                   (\<forall>r. r \<noteq> this \<longrightarrow> h' r = h r) \<and>
                   (\<forall>n. find_object (Suc n) h' this object =
                          find_in_derivatives n h' (derivatives_' ci) object None) \<and>
                   (\<forall>n. (\<forall>x \<in> set (derivatives_' ci). find_object n h' x object = Returns None) \<longrightarrow>
                          find_object (Suc n) h' this object = Returns None)"
      by (intro exI [of _ ?h']) simp
  qed
  from 1 2 3 show ?thesis by blast
qed

text \<open>
  In the example registry, with assertions enabled: the address 100 cannot be registered
  with \<open>C\<close> again, the address 200 cannot be removed, and once 100 is removed (the
  destroy hook being called with it) the lookup through \<open>C\<close>, which has no derivative,
  returns empty.
\<close>

theorem registry_add_remove_witness:
  "deref wrapped_C 3 = Some \<lparr>type_' = 2, bases_' = [\<lparr>info = 2, base_cast = (\<lambda>p. p + 8)\<rparr>],
            derivatives_' = [], objects_' = [100 \<mapsto> Some 7]\<rparr> \<and>
   add_object False wrapped_C 3 100 (Some 9) = Aborted ''duplicate object'' \<and>
   remove_object False wrapped_C 3 200 True = Aborted ''no object'' \<and>
   (\<exists>h'. remove_object False wrapped_C 3 100 True = Returned [100] h' \<and>
          find_object 1 h' 3 100 = Returns None)"
proof -
  have c: "deref wrapped_C 3 = Some \<lparr>type_' = 2, bases_' = [\<lparr>info = 2, base_cast = (\<lambda>p. p + 8)\<rparr>],
            derivatives_' = [], objects_' = [100 \<mapsto> Some 7]\<rparr>"
    by (simp add: wrapped_C_def deref_def)
  from registry_add_remove [OF c, where object = 100 and handle = "Some 9"]
  have 1: "add_object False wrapped_C 3 100 (Some 9) = Aborted ''duplicate object''" by simp
  from registry_add_remove [OF c, where object = 200 and destroy = True]
  have 2: "remove_object False wrapped_C 3 200 True = Aborted ''no object''" by simp
  from registry_add_remove [OF c, where object = 100 and destroy = True and NDEBUG = False]
  have "\<exists>h'. remove_object False wrapped_C 3 100 True = Returned [100] h' \<and>
          (\<forall>n. find_object (Suc n) h' 3 100 = Returns None)"
    by (simp del: find_object.simps) blast
  then have 3: "\<exists>h'. remove_object False wrapped_C 3 100 True = Returned [100] h' \<and>
          find_object 1 h' 3 100 = Returns None"
    unfolding One_nat_def by blast
  from c 1 2 3 show ?thesis by blast
qed

text \<open>
  C7 as stated fails in two ways. With \<^verbatim>\<open>NDEBUG\<close>, registering the address 100 again
  with \<open>A\<close> and removing the address 200 that \<open>A\<close> does not hold both return, the heap
  unchanged: they are ignored. And after 100 is removed from the registry of \<open>A\<close>,
  \<^verbatim>\<open>find_object\<close> on \<open>A\<close> for 100 is not empty: it finds the entry of the derivative \<open>C\<close>.
\<close>

theorem registry_add_remove_counterexample:
  "add_object True wrapped_AC 1 100 (Some 9) = Returned () wrapped_AC \<and>
   remove_object True wrapped_AC 1 200 True = Returned [] wrapped_AC \<and>
   (case remove_object False wrapped_AC 1 100 True of
      Returned called h' \<Rightarrow> called = [100] \<and> find_object 3 h' 1 100 = Returns (Some 7)
    | _ \<Rightarrow> False)"
  by (simp add: add_object_def remove_object_def wrapped_AC_def deref_def to_local_def numeral_3_eq_3)

section \<open>Properties of wrapping and unwrapping\<close>

lemma deref_nonzero: "deref h r = Some x \<Longrightarrow> r \<noteq> 0"
  by (auto simp: deref_def split: if_splits)

lemma wrap_external_object_fresh:
  assumes cs: "deref (classes st) this = Some cs"
    and fc: "internal_field_count (func_' cs) = 2"
    and fresh: "objects_' cs N = None"
  shows "wrap_external_object NDEBUG this N st =
           Returned (next_obj st)
             (st\<lparr>js_objects := (js_objects st)(next_obj st \<mapsto>
                    \<lparr>internal_fields = [N, this], prototype = instance_prototype (func_' cs)\<rparr>),
                 next_obj := Suc (next_obj st),
                 classes := (classes st)(this \<mapsto> cs\<lparr>objects_' := (objects_' cs)(N \<mapsto> Some (next_obj st))\<rparr>)\<rparr>)"
  using cs fc fresh
  by (simp add: wrap_external_object_def NewInstance_def SetAlignedPointerInInternalField_def
      add_object_def numeral_2_eq_2)

text \<open>
  C2, as amended. Let the descriptor at \<open>this\<close> be the descriptor of the type \<open>T\<close> as its
  constructor leaves it (its type index is the index of \<open>T\<close>, the instances of its
  template have two internal fields), and let the address \<open>N\<close> not be a key of its
  registry. Then \<^verbatim>\<open>wrap_external_object\<close> returns a proxy \<open>H\<close> whose internal fields are
  \<open>N\<close> and \<open>this\<close>; \<^verbatim>\<open>unwrap_object\<close> of \<open>H\<close> at the type \<open>T\<close> returns \<open>N\<close>, having read the
  two fields of \<open>H\<close> only; and \<^verbatim>\<open>find_object\<close> of \<open>N\<close> on the descriptor returns \<open>H\<close>.
\<close>

theorem wrap_round_trip:
  assumes cs: "deref (classes st) this = Some cs"
    and ty: "my_type st T = Some (type_' cs)"
    and fc: "internal_field_count (func_' cs) = 2"
    and fresh: "objects_' cs N = None"
  shows "\<exists>H st'. wrap_external_object NDEBUG this N st = Returned H st' \<and>
           map_option internal_fields (js_objects st' H) = Some [N, this] \<and>
           unwrap_object (Suc k) (Suc n) T (Object H) st' [] = (Returns (N, st'), [(H, 0), (H, 1)]) \<and>
           singleton_find_object (Suc n) this N st' = Returns (Some H)"
proof -
  let ?H = "next_obj st"
  let ?st' = "st\<lparr>js_objects := (js_objects st)(?H \<mapsto>
                    \<lparr>internal_fields = [N, this], prototype = instance_prototype (func_' cs)\<rparr>),
                 next_obj := Suc ?H,
                 classes := (classes st)(this \<mapsto> cs\<lparr>objects_' := (objects_' cs)(N \<mapsto> Some ?H)\<rparr>)\<rparr>"
  from deref_nonzero [OF cs] have this0: "this \<noteq> 0" .
  have w: "wrap_external_object NDEBUG this N st = Returned ?H ?st'"
    by (rule wrap_external_object_fresh [OF cs fc fresh])
  have f: "map_option internal_fields (js_objects ?st' ?H) = Some [N, this]" by simp
  have d: "deref (classes ?st') this = Some (cs\<lparr>objects_' := (objects_' cs)(N \<mapsto> Some ?H)\<rparr>)"
    using this0 by (simp add: deref_def)
  from ty have ct: "class_type T ?st' = (type_' cs, ?st')"
    by (simp add: class_type_def)
  have c: "cast (Suc n) (classes ?st') this N (type_' cs) = Returns (True, N)"
    using d by simp
  have u: "unwrap_object (Suc k) (Suc n) T (Object ?H) ?st' [] = (Returns (N, ?st'), [(?H, 0), (?H, 1)])"
    using this0 ct c by (simp del: cast.simps)
  have fo: "singleton_find_object (Suc n) this N ?st' = Returns (Some ?H)"
    using d by (simp add: singleton_find_object_def to_local_def)
  from w f u fo show ?thesis by blast
qed

text \<open>
  The descriptor of \<open>A\<close> as \<^verbatim>\<open>instance\<close> makes it satisfies the hypotheses; wrapping the
  address 100 gives the proxy object 3.
\<close>

theorem wrap_round_trip_witness:
  "class_singleton_instance ''A'' 1 initial_process = (1, process_A) \<and>
   deref (classes process_A) 1 = Some descriptor_A \<and>
   my_type process_A ''A'' = Some (type_' descriptor_A) \<and>
   internal_field_count (func_' descriptor_A) = 2 \<and>
   objects_' descriptor_A 100 = None \<and>
   (\<exists>st'. wrap_external_object False 1 100 process_A = Returned 3 st' \<and>
      map_option internal_fields (js_objects st' 3) = Some [100, 1] \<and>
      unwrap_object 1 1 ''A'' (Object 3) st' [] = (Returns (100, st'), [(3, 0), (3, 1)]) \<and>
      singleton_find_object 1 1 100 st' = Returns (Some 3))"
proof -
  have i: "class_singleton_instance ''A'' 1 initial_process = (1, process_A)"
    by (simp add: class_singleton_instance_def initial_process_def process_A_def descriptor_A_def
      class_type_def register_class_def new_class_singleton_def FunctionTemplate_New_def Let_def
      numeral_2_eq_2)
  have cs: "deref (classes process_A) 1 = Some descriptor_A"
    by (simp add: process_A_def deref_def)
  have ty: "my_type process_A ''A'' = Some (type_' descriptor_A)"
    by (simp add: process_A_def descriptor_A_def)
  have fc: "internal_field_count (func_' descriptor_A) = 2"
    by (simp add: descriptor_A_def)
  have fresh: "objects_' descriptor_A 100 = None"
    by (simp add: descriptor_A_def)
  have n: "next_obj process_A = 3" by (simp add: process_A_def)
  from wrap_external_object_fresh [OF cs fc fresh, of False] n
  obtain st0 where w: "wrap_external_object False 1 100 process_A = Returned 3 st0" by simp
  from wrap_round_trip [OF cs ty fc fresh, of False 0 0]
  obtain H st' where r: "wrap_external_object False 1 100 process_A = Returned H st'"
      "map_option internal_fields (js_objects st' H) = Some [100, 1]"
      "unwrap_object (Suc 0) (Suc 0) ''A'' (Object H) st' [] = (Returns (100, st'), [(H, 0), (H, 1)])"
      "singleton_find_object (Suc 0) 1 100 st' = Returns (Some H)"
    by blast
  from r(1) w have "H = 3" by simp
  with r have "\<exists>st'. wrap_external_object False 1 100 process_A = Returned 3 st' \<and>
      map_option internal_fields (js_objects st' 3) = Some [100, 1] \<and>
      unwrap_object 1 1 ''A'' (Object 3) st' [] = (Returns (100, st'), [(3, 0), (3, 1)]) \<and>
      singleton_find_object 1 1 100 st' = Returns (Some 3)"
    unfolding One_nat_def by blast
  with i cs ty fc fresh show ?thesis by blast
qed

text \<open>
  C2 as stated fails in a build with \<^verbatim>\<open>NDEBUG\<close> where the address is wrapped a second
  time: the second wrap returns a new proxy (object 4) whose fields hold the address and
  the descriptor, but the registry keeps the first entry, and \<^verbatim>\<open>find_object\<close> returns
  the first proxy (object 3).
\<close>

theorem wrap_twice_counterexample:
  "(case wrap_external_object True 1 100 process_A of
      Returned H1 st1 \<Rightarrow>
        (case wrap_external_object True 1 100 st1 of
           Returned H2 st2 \<Rightarrow>
             H1 = 3 \<and> H2 = 4 \<and>
             map_option internal_fields (js_objects st2 H2) = Some [100, 1] \<and>
             singleton_find_object 1 1 100 st2 = Returns (Some 3)
         | _ \<Rightarrow> False)
    | _ \<Rightarrow> False)"
  by (simp add: wrap_external_object_def NewInstance_def SetAlignedPointerInInternalField_def
      add_object_def process_A_def descriptor_A_def deref_def singleton_find_object_def
      to_local_def numeral_2_eq_2)

section \<open>Properties of the constructor callback\<close>

text \<open>
  C5. When the descriptor that \<^verbatim>\<open>instance\<close> returns for the type has no constructor
  function, the callback of the script-constructible template returns normally (no
  error leaves it, nothing aborts): \<^verbatim>\<open>wrap_object\<close> throws ``create is not allowed'',
  the callback catches it, and its return value and the state it leaves are those that
  \<^verbatim>\<open>throw_ex\<close> gives for this message in the state \<^verbatim>\<open>instance\<close> left.
\<close>

theorem callback_without_ctor:
  assumes i: "class_singleton_instance T isolate st = (this, st1)"
    and cs: "deref (classes st1) this = Some cs"
    and no: "ctor_' cs = None"
  shows "wrap_object_args NDEBUG this args st1 = Thrown ''create is not allowed'' st1 \<and>
         js_func_callback throw_ex NDEBUG T isolate args st =
           Returned (fst (throw_ex isolate ''create is not allowed'' st1))
                    (snd (throw_ex isolate ''create is not allowed'' st1))"
  using i cs no by (simp add: js_func_callback_def wrap_object_args_def split_def Let_def)

text \<open>
  The type \<open>A\<close>, referenced for the first time by the callback itself: its new descriptor
  has no constructor function, and with \<^verbatim>\<open>throw_ex\<close> as the spec has it the callback
  leaves the exception scheduled in the isolate.
\<close>

theorem callback_without_ctor_witness:
  "class_singleton_instance ''A'' 1 initial_process = (1, process_A) \<and>
   deref (classes process_A) 1 = Some descriptor_A \<and> ctor_' descriptor_A = None \<and>
   wrap_object_args False 1 [] process_A = Thrown ''create is not allowed'' process_A \<and>
   js_func_callback throw_ex_spec False ''A'' 1 [] initial_process =
     Returned Primitive (process_A\<lparr>pending_exception := [1 \<mapsto> ''create is not allowed'']\<rparr>)"
proof -
  have i: "class_singleton_instance ''A'' 1 initial_process = (1, process_A)"
    by (simp add: class_singleton_instance_def initial_process_def process_A_def descriptor_A_def
      class_type_def register_class_def new_class_singleton_def FunctionTemplate_New_def Let_def
      numeral_2_eq_2)
  have cs: "deref (classes process_A) 1 = Some descriptor_A"
    by (simp add: process_A_def deref_def)
  have no: "ctor_' descriptor_A = None"
    by (simp add: descriptor_A_def)
  have p: "pending_exception process_A = Map.empty" by (simp add: process_A_def)
  from callback_without_ctor [OF i cs no, where throw_ex = throw_ex_spec and NDEBUG = False
      and args = "[]"] p i cs no show ?thesis
    by (simp add: throw_ex_spec_def)
qed

section \<open>The directory of descriptors in a second isolate\<close>

text \<open>
  C6 at a failing input. The types \<open>A\<close> and \<open>B\<close> are first referenced in the isolate 1, in
  this order, and get the indices 0 and 1. In the isolate 2, \<open>B\<close> is referenced first:
  its index 1 is not below the size 0 of the directory, so a descriptor is made and
  appended, at position 0. The next call for \<open>B\<close> in the isolate 2 finds the index 1 not
  below the size 1, and makes and returns another descriptor. A call for \<open>A\<close> in the
  isolate 2 then returns the element at position 0: the first descriptor of \<open>B\<close>. In
  the isolate 1, where the order of first reference is the order of the indices, a
  later call for \<open>B\<close> returns the descriptor of the first call.
\<close>

theorem instance_second_isolate:
  "(let (a, s1) = class_singleton_instance ''A'' 1 initial_process;
        (b, s2) = class_singleton_instance ''B'' 1 s1;
        (b2, s3) = class_singleton_instance ''B'' 2 s2;
        (b2', s4) = class_singleton_instance ''B'' 2 s3;
        (a2, s5) = class_singleton_instance ''A'' 2 s4
    in my_type s5 ''A'' = Some 0 \<and> my_type s5 ''B'' = Some 1 \<and>
       isolate_data s2 1 = Some [a, b] \<and>
       isolate_data s3 2 = Some [b2] \<and> b2 = 3 \<and>
       isolate_data s4 2 = Some [b2, b2'] \<and> b2' = 4 \<and>
       a2 = b2 \<and> map_option type_' (classes s5 a2) = Some 1 \<and>
       fst (class_singleton_instance ''B'' 1 s5) = b)"
  by (simp add: class_singleton_instance_def initial_process_def
      class_type_def register_class_def new_class_singleton_def FunctionTemplate_New_def Let_def)

section \<open>Which internal fields \<^verbatim>\<open>unwrap_object\<close> reads\<close>

lemma class_type_frame:
  assumes "class_type T st = (t, st1)"
  shows "js_objects st1 = js_objects st" and "classes st1 = classes st"
    and "class_type T st1 = (t, st1)"
  using assms
  by (auto simp: class_type_def register_class_def Let_def split: option.splits)

lemma unwrap_object_reads:
  "set (snd (unwrap_object k n T v st reads)) \<subseteq>
     set reads \<union> {(obj, i). obj \<in> set (proto_chain k (js_objects st) v) \<and>
                     map_option (\<lambda>ob. length (internal_fields ob)) (js_objects st obj) = Some 2 \<and>
                     i < 2}"
proof (induction k arbitrary: v st reads)
  case 0
  show ?case by (cases v) simp_all
next
  case (Suc k)
  show ?case
  proof (cases v)
    case Primitive
    then show ?thesis by simp
  next
    case (Object obj)
    show ?thesis
    proof (cases "js_objects st obj")
      case None
      with Object show ?thesis by simp
    next
      case (Some ob)
      let ?reads' = "reads @ [(obj, 0), (obj, 1)]"
      show ?thesis
      proof (cases "length (internal_fields ob) = 2")
        case False
        with Object Some Suc.IH [of "prototype ob" st reads] show ?thesis by auto
      next
        case two: True
        show ?thesis
        proof (cases "internal_fields ob ! 1 = 0")
          case True
          with Object Some two Suc.IH [of "prototype ob" st ?reads'] show ?thesis
            by (auto simp: Let_def)
        next
          case False
          obtain t st1 where ct: "class_type T st = (t, st1)" by (cases "class_type T st")
          note fr = class_type_frame [OF ct]
          show ?thesis
          proof (cases "cast n (classes st1) (internal_fields ob ! 1) (internal_fields ob ! 0) t")
            case OutOfFuel
            with Object Some two False ct show ?thesis by (auto simp: Let_def)
          next
            case BadPointer
            with Object Some two False ct show ?thesis by (auto simp: Let_def)
          next
            case (Returns res)
            obtain found ptr' where res: "res = (found, ptr')" by (cases res)
            show ?thesis
            proof (cases found)
              case True
              with Object Some two False ct Returns res show ?thesis by (auto simp: Let_def)
            next
              case nf: False
              from Suc.IH [of "prototype ob" st1 ?reads'] fr(1)
              have "set (snd (unwrap_object k n T (prototype ob) st1 ?reads')) \<subseteq>
                      set ?reads' \<union> {(obj, i). obj \<in> set (proto_chain k (js_objects st) (prototype ob)) \<and>
                        map_option (\<lambda>ob. length (internal_fields ob)) (js_objects st obj) = Some 2 \<and>
                        i < 2}"
                by simp
              with Object Some two False ct Returns res nf show ?thesis
                by (auto simp: Let_def)
            qed
          qed
        qed
      qed
    qed
  qed
qed

lemma unwrap_object_null:
  assumes "chain_ends k (js_objects st) v"
    and "\<forall>obj \<in> set (proto_chain k (js_objects st) v). \<forall>ob. js_objects st obj = Some ob \<longrightarrow>
           length (internal_fields ob) = 2 \<longrightarrow> internal_fields ob ! 1 \<noteq> 0 \<longrightarrow>
           (\<exists>q. cast n (classes st) (internal_fields ob ! 1) (internal_fields ob ! 0)
                  (fst (class_type T st)) = Returns (False, q))"
  shows "\<exists>st'. fst (unwrap_object k n T v st reads) = Returns (0, st') \<and>
           classes st' = classes st \<and> js_objects st' = js_objects st \<and>
           fst (class_type T st') = fst (class_type T st)"
  using assms
proof (induction k arbitrary: v st reads)
  case 0
  then show ?case by (cases v) simp_all
next
  case (Suc k)
  show ?case
  proof (cases v)
    case Primitive
    then show ?thesis by simp
  next
    case (Object obj)
    with Suc.prems(1) obtain ob where ob: "js_objects st obj = Some ob"
      and ce: "chain_ends k (js_objects st) (prototype ob)"
      by (auto split: option.splits)
    from Suc.prems(2) Object ob
    have here: "length (internal_fields ob) = 2 \<Longrightarrow> internal_fields ob ! 1 \<noteq> 0 \<Longrightarrow>
           \<exists>q. cast n (classes st) (internal_fields ob ! 1) (internal_fields ob ! 0)
                  (fst (class_type T st)) = Returns (False, q)"
      by simp
    from Suc.prems(2) Object ob
    have rest: "\<forall>obj \<in> set (proto_chain k (js_objects st) (prototype ob)). \<forall>ob. js_objects st obj = Some ob \<longrightarrow>
           length (internal_fields ob) = 2 \<longrightarrow> internal_fields ob ! 1 \<noteq> 0 \<longrightarrow>
           (\<exists>q. cast n (classes st) (internal_fields ob ! 1) (internal_fields ob ! 0)
                  (fst (class_type T st)) = Returns (False, q))"
      by simp
    let ?reads' = "reads @ [(obj, 0), (obj, 1)]"
    show ?thesis
    proof (cases "length (internal_fields ob) = 2 \<and> internal_fields ob ! 1 \<noteq> 0")
      case False
      from Suc.IH [OF ce rest, of reads] Suc.IH [OF ce rest, of ?reads'] False Object ob
      show ?thesis by (auto simp: Let_def)
    next
      case True
      obtain t st1 where ct: "class_type T st = (t, st1)" by (cases "class_type T st")
      note fr = class_type_frame [OF ct]
      from here True ct fr(2) obtain q
        where c: "cast n (classes st1) (internal_fields ob ! 1) (internal_fields ob ! 0) t = Returns (False, q)"
        by auto
      from ce fr(1) have ce1: "chain_ends k (js_objects st1) (prototype ob)" by simp
      from rest fr ct
      have rest1: "\<forall>obj \<in> set (proto_chain k (js_objects st1) (prototype ob)). \<forall>ob. js_objects st1 obj = Some ob \<longrightarrow>
           length (internal_fields ob) = 2 \<longrightarrow> internal_fields ob ! 1 \<noteq> 0 \<longrightarrow>
           (\<exists>q. cast n (classes st1) (internal_fields ob ! 1) (internal_fields ob ! 0)
                  (fst (class_type T st1)) = Returns (False, q))"
        by simp
      from Suc.IH [OF ce1 rest1, of ?reads'] fr ct
      obtain st' where "fst (unwrap_object k n T (prototype ob) st1 ?reads') = Returns (0, st')"
        "classes st' = classes st" "js_objects st' = js_objects st"
        "fst (class_type T st') = fst (class_type T st)"
        by auto
      with True Object ob ct c show ?thesis by (auto simp: Let_def)
    qed
  qed
qed


lemma uniform_bound:
  assumes "\<forall>x \<in> set xs. \<exists>n. P n x" and mono: "\<And>n m x. P n x \<Longrightarrow> n \<le> m \<Longrightarrow> P m x"
  shows "\<exists>N. \<forall>x \<in> set xs. P (N::nat) x"
  using assms(1)
proof (induction xs)
  case Nil
  then show ?case by simp
next
  case (Cons x xs)
  then obtain n1 n2 where n1: "P n1 x" and n2: "\<forall>y \<in> set xs. P n2 y" by auto
  from n1 have "P (max n1 n2) x" by (rule mono) simp
  moreover from n2 have "\<forall>y \<in> set xs. P (max n1 n2) y" using mono [of n2 _ "max n1 n2"] by simp
  ultimately show ?case by auto
qed

lemma unwrap_object_null_acyclic:
  assumes b: "built (classes st)" and ac: "acyclic (base_rel (classes st))"
    and ce: "chain_ends k (js_objects st) v"
    and hyp: "\<forall>obj \<in> set (proto_chain k (js_objects st) v). \<forall>ob. js_objects st obj = Some ob \<longrightarrow>
           length (internal_fields ob) = 2 \<longrightarrow> internal_fields ob ! 1 \<noteq> 0 \<longrightarrow>
           deref (classes st) (internal_fields ob ! 1) \<noteq> None \<and>
           (\<forall>bs. \<not> reaches (classes st) (internal_fields ob ! 1) bs (fst (class_type T st)))"
  shows "\<exists>n0. \<forall>n \<ge> n0. \<exists>st'. fst (unwrap_object k n T v st []) = Returns (0, st') \<and>
           classes st' = classes st \<and> js_objects st' = js_objects st"
proof -
  let ?h = "classes st" and ?t = "fst (class_type T st)"
  let ?P = "\<lambda>n obj. \<forall>ob. js_objects st obj = Some ob \<longrightarrow>
           length (internal_fields ob) = 2 \<longrightarrow> internal_fields ob ! 1 \<noteq> 0 \<longrightarrow>
           depth_le n ?h (internal_fields ob ! 1)"
  from built_finite_closed [OF b] have fin: "finite (dom ?h)" and cl: "closed ?h" by simp_all
  have each: "\<forall>obj \<in> set (proto_chain k (js_objects st) v). \<exists>n. ?P n obj"
  proof
    fix obj assume o: "obj \<in> set (proto_chain k (js_objects st) v)"
    show "\<exists>n. ?P n obj"
    proof (cases "js_objects st obj")
      case None
      then show ?thesis by simp
    next
      case (Some ob)
      show ?thesis
      proof (cases "length (internal_fields ob) = 2 \<and> internal_fields ob ! 1 \<noteq> 0")
        case False
        with Some show ?thesis by auto
      next
        case True
        with hyp o Some have "deref ?h (internal_fields ob ! 1) \<noteq> None" by blast
        from acyclic_depth [OF fin cl ac this] obtain n where "depth_le n ?h (internal_fields ob ! 1)" ..
        with Some have "?P n obj" by simp
        then show ?thesis ..
      qed
    qed
  qed
  have "\<exists>N. \<forall>obj \<in> set (proto_chain k (js_objects st) v). ?P N obj"
    by (rule uniform_bound [OF each]) (blast intro: depth_le_mono)
  then obtain N where N: "\<forall>obj \<in> set (proto_chain k (js_objects st) v). ?P N obj" ..
  have "\<exists>st'. fst (unwrap_object k n T v st []) = Returns (0, st') \<and>
           classes st' = classes st \<and> js_objects st' = js_objects st" if n: "N \<le> n" for n
  proof -
    have "\<forall>obj \<in> set (proto_chain k (js_objects st) v). \<forall>ob. js_objects st obj = Some ob \<longrightarrow>
           length (internal_fields ob) = 2 \<longrightarrow> internal_fields ob ! 1 \<noteq> 0 \<longrightarrow>
           (\<exists>q. cast n ?h (internal_fields ob ! 1) (internal_fields ob ! 0) ?t = Returns (False, q))"
    proof (intro ballI allI impI)
      fix obj ob
      assume o: "obj \<in> set (proto_chain k (js_objects st) v)" and ob: "js_objects st obj = Some ob"
        and two: "length (internal_fields ob) = 2" and nz: "internal_fields ob ! 1 \<noteq> 0"
      from N o ob two nz have "depth_le N ?h (internal_fields ob ! 1)" by blast
      from depth_le_mono [OF this n] have "depth_le n ?h (internal_fields ob ! 1)" .
      from cast_total [OF this, of "internal_fields ob ! 0" ?t]
      obtain ok q where c: "cast n ?h (internal_fields ob ! 1) (internal_fields ob ! 0) ?t = Returns (ok, q)"
        by auto
      have "\<not> ok"
      proof
        assume ok
        with c have "cast n ?h (internal_fields ob ! 1) (internal_fields ob ! 0) ?t = Returns (True, q)"
          by simp
        from cast_True [OF this] hyp o ob two nz show False by blast
      qed
      with c show "\<exists>q. cast n ?h (internal_fields ob ! 1) (internal_fields ob ! 0) ?t = Returns (False, q)"
        by auto
    qed
    from unwrap_object_null [OF ce this, of "[]"] show ?thesis by blast
  qed
  then show ?thesis by blast
qed

text \<open>
  C10, as amended. Whatever the value and however far the call gets, every internal
  field that \<^verbatim>\<open>unwrap_object\<close> reads is field 0 or 1 of an object on the prototype chain
  of the value that has exactly two internal fields. A value that is not an object gives
  \<^verbatim>\<open>nullptr\<close> with no read at all. And where the descriptors form a hierarchy built
  without cycles among its BaseLinks, the prototype chain ends, and each of its
  two-field objects with a non-null stored descriptor stores a live descriptor from
  which the requested type is not reachable, the call returns \<^verbatim>\<open>nullptr\<close> (at every
  sufficient recursion depth of the casts), leaving the descriptors and the objects as
  they were.
\<close>

theorem unwrap_object_reads_two_field_objects:
  "(\<forall>(obj, i) \<in> set (snd (unwrap_object k n T v st [])).
      obj \<in> set (proto_chain k (js_objects st) v) \<and>
      map_option (\<lambda>ob. length (internal_fields ob)) (js_objects st obj) = Some 2 \<and> i < 2) \<and>
   unwrap_object k n T Primitive st [] = (Returns (0, st), []) \<and>
   (built (classes st) \<longrightarrow> acyclic (base_rel (classes st)) \<longrightarrow>
    chain_ends k (js_objects st) v \<longrightarrow>
    (\<forall>obj \<in> set (proto_chain k (js_objects st) v). \<forall>ob. js_objects st obj = Some ob \<longrightarrow>
       length (internal_fields ob) = 2 \<longrightarrow> internal_fields ob ! 1 \<noteq> 0 \<longrightarrow>
       deref (classes st) (internal_fields ob ! 1) \<noteq> None \<and>
       (\<forall>bs. \<not> reaches (classes st) (internal_fields ob ! 1) bs (fst (class_type T st)))) \<longrightarrow>
    (\<exists>n0. \<forall>m \<ge> n0. \<exists>st'. fst (unwrap_object k m T v st []) = Returns (0, st') \<and>
       classes st' = classes st \<and> js_objects st' = js_objects st))"
proof -
  have 1: "\<forall>(obj, i) \<in> set (snd (unwrap_object k n T v st [])).
      obj \<in> set (proto_chain k (js_objects st) v) \<and>
      map_option (\<lambda>ob. length (internal_fields ob)) (js_objects st obj) = Some 2 \<and> i < 2"
    using unwrap_object_reads [of k n T v st "[]"] by auto
  have 2: "unwrap_object k n T Primitive st [] = (Returns (0, st), [])" by simp
  have 3: "built (classes st) \<longrightarrow> acyclic (base_rel (classes st)) \<longrightarrow>
    chain_ends k (js_objects st) v \<longrightarrow>
    (\<forall>obj \<in> set (proto_chain k (js_objects st) v). \<forall>ob. js_objects st obj = Some ob \<longrightarrow>
       length (internal_fields ob) = 2 \<longrightarrow> internal_fields ob ! 1 \<noteq> 0 \<longrightarrow>
       deref (classes st) (internal_fields ob ! 1) \<noteq> None \<and>
       (\<forall>bs. \<not> reaches (classes st) (internal_fields ob ! 1) bs (fst (class_type T st)))) \<longrightarrow>
    (\<exists>n0. \<forall>m \<ge> n0. \<exists>st'. fst (unwrap_object k m T v st []) = Returns (0, st') \<and>
       classes st' = classes st \<and> js_objects st' = js_objects st)"
    using unwrap_object_null_acyclic [of st k v T] by blast
  from 1 2 3 show ?thesis by blast
qed

text \<open>
  In the example chain, asked for the type \<open>B\<close>: object 10 is passed over unread; the two
  fields of the proxy 11 are read, and from its descriptor, of the unrelated type \<open>A\<close>,
  the type \<open>B\<close> is not reachable; the two fields of object 12 are read, and its
  descriptor is null; the chain ends and the result is \<^verbatim>\<open>nullptr\<close>.
\<close>

theorem unwrap_object_reads_two_field_objects_witness:
  "built (classes process_chain) \<and> acyclic (base_rel (classes process_chain)) \<and>
   chain_ends 3 (js_objects process_chain) (Object 10) \<and>
   proto_chain 3 (js_objects process_chain) (Object 10) = [10, 11, 12] \<and>
   deref (classes process_chain) 1 \<noteq> None \<and>
   (\<forall>bs. \<not> reaches (classes process_chain) 1 bs (fst (class_type ''B'' process_chain))) \<and>
   unwrap_object 3 1 ''B'' (Object 10) process_chain [] =
     (Returns (0, process_chain), [(11, 0), (11, 1), (12, 0), (12, 1)])"
proof -
  have cl: "classes process_chain = [1 \<mapsto> descriptor_A]" by (simp add: process_chain_def)
  have bu: "built (classes process_chain)"
    unfolding cl by (rule built.fresh) (auto simp: descriptor_A_def deref_def split: if_splits)
  have ac: "acyclic (base_rel (classes process_chain))"
    unfolding cl by (rule acyclic_by_address) (auto simp: descriptor_A_def deref_def split: if_splits)
  have ce: "chain_ends 3 (js_objects process_chain) (Object 10)"
    by (simp add: process_chain_def numeral_3_eq_3)
  have pc: "proto_chain 3 (js_objects process_chain) (Object 10) = [10, 11, 12]"
    by (simp add: process_chain_def numeral_3_eq_3)
  have ct: "class_type ''B'' process_chain = (1, process_chain)"
    by (simp add: class_type_def process_chain_def)
  have live: "deref (classes process_chain) 1 \<noteq> None"
    by (simp add: cl deref_def)
  have nr: "\<not> reaches (classes process_chain) 1 bs 1" for bs
    unfolding cl by (cases bs) (simp_all add: descriptor_A_def deref_def)
  have hyp: "\<forall>obj \<in> set (proto_chain 3 (js_objects process_chain) (Object 10)).
       \<forall>ob. js_objects process_chain obj = Some ob \<longrightarrow>
       length (internal_fields ob) = 2 \<longrightarrow> internal_fields ob ! 1 \<noteq> 0 \<longrightarrow>
       deref (classes process_chain) (internal_fields ob ! 1) \<noteq> None \<and>
       (\<forall>bs. \<not> reaches (classes process_chain) (internal_fields ob ! 1) bs
               (fst (class_type ''B'' process_chain)))"
  proof (intro ballI allI impI)
    fix obj ob
    assume "obj \<in> set (proto_chain 3 (js_objects process_chain) (Object 10))"
      and "js_objects process_chain obj = Some ob"
      and "length (internal_fields ob) = 2" and "internal_fields ob ! 1 \<noteq> 0"
    then have "internal_fields ob ! 1 = 1"
      unfolding pc by (auto simp: process_chain_def split: if_splits)
    with live nr ct
    show "deref (classes process_chain) (internal_fields ob ! 1) \<noteq> None \<and>
       (\<forall>bs. \<not> reaches (classes process_chain) (internal_fields ob ! 1) bs
               (fst (class_type ''B'' process_chain)))" by simp
  qed
  from unwrap_object_reads_two_field_objects [of 3 1 "''B''" "Object 10" process_chain] bu ac ce hyp
  obtain n0 where "\<forall>m \<ge> n0. \<exists>st'. fst (unwrap_object 3 m ''B'' (Object 10) process_chain []) = Returns (0, st')"
    by blast
  moreover have "unwrap_object 3 1 ''B'' (Object 10) process_chain [] =
     (Returns (0, process_chain), [(11, 0), (11, 1), (12, 0), (12, 1)])"
    by (simp add: numeral_3_eq_3 process_chain_def descriptor_A_def deref_def class_type_def)
  ultimately show ?thesis using bu ac ce pc ct live nr by simp
qed

lemma instance_B: "class_singleton_instance ''B'' 1 process_A =
    (2, process_A\<lparr>next_index := 2, my_type := [''A'' \<mapsto> 0, ''B'' \<mapsto> 1],
          isolate_data := [1 \<mapsto> [1, 2]], classes := [1 \<mapsto> descriptor_A, 2 \<mapsto> descriptor_B],
          next_ref := 3,
          js_objects := [1 \<mapsto> \<lparr>internal_fields = [], prototype = Primitive\<rparr>,
                    2 \<mapsto> \<lparr>internal_fields = [], prototype = Primitive\<rparr>,
                    3 \<mapsto> \<lparr>internal_fields = [], prototype = Primitive\<rparr>,
                    4 \<mapsto> \<lparr>internal_fields = [], prototype = Primitive\<rparr>],
          next_obj := 5\<rparr>)"
  by (simp add: class_singleton_instance_def process_A_def descriptor_A_def descriptor_B_def
      class_type_def register_class_def new_class_singleton_def FunctionTemplate_New_def Let_def
      eval_nat_numeral)

text \<open>
  C10 as stated fails for a proxy of a descriptor that is its own base. The operations
  build the state (\<^verbatim>\<open>instance\<close> for \<open>A\<close> and \<open>B\<close>, \<^verbatim>\<open>add_base\<close> of the descriptor of \<open>A\<close> to
  itself, \<^verbatim>\<open>wrap_external_object\<close> of the address 100). The prototype chain of the proxy
  ends after two objects and the type \<open>B\<close> is not reachable from its descriptor, so no
  two-field object on the chain has a descriptor that casts to \<open>B\<close>; yet the cast returns
  at no recursion depth, and \<^verbatim>\<open>unwrap_object\<close> for \<open>B\<close> returns neither \<^verbatim>\<open>nullptr\<close> nor
  anything else.
\<close>

theorem unwrap_object_self_base_counterexample:
  "(let (a, s1) = class_singleton_instance ''A'' 1 initial_process;
        (b, s2) = class_singleton_instance ''B'' 1 s1
    in case add_base False (classes s2) a a (\<lambda>p. p) of
         Returned u h \<Rightarrow>
           wrap_external_object False a 100 (s2\<lparr>classes := h\<rparr>) = Returned 5 process_self_base
       | _ \<Rightarrow> False) \<and>
   chain_ends 2 (js_objects process_self_base) (Object 5) \<and>
   class_type ''B'' process_self_base = (1, process_self_base) \<and>
   (\<forall>bs. \<not> reaches (classes process_self_base) 1 bs 1) \<and>
   (\<forall>n. cast n (classes process_self_base) 1 100 1 = OutOfFuel) \<and>
   (\<forall>k n. fst (unwrap_object k n ''B'' (Object 5) process_self_base []) = OutOfFuel)"
proof -
  have i: "class_singleton_instance ''A'' 1 initial_process = (1, process_A)"
    by (simp add: class_singleton_instance_def initial_process_def process_A_def descriptor_A_def
      class_type_def register_class_def new_class_singleton_def FunctionTemplate_New_def Let_def
      numeral_2_eq_2)
  have 1: "(let (a, s1) = class_singleton_instance ''A'' 1 initial_process;
        (b, s2) = class_singleton_instance ''B'' 1 s1
    in case add_base False (classes s2) a a (\<lambda>p. p) of
         Returned u h \<Rightarrow>
           wrap_external_object False a 100 (s2\<lparr>classes := h\<rparr>) = Returned 5 process_self_base
       | _ \<Rightarrow> False)"
    unfolding i Let_def prod.case instance_B
    by (simp add: add_base_def deref_def descriptor_A_def descriptor_B_def process_A_def
        process_self_base_def wrap_external_object_def NewInstance_def
        SetAlignedPointerInInternalField_def add_object_def numeral_2_eq_2 fun_eq_iff)
  have 2: "chain_ends 2 (js_objects process_self_base) (Object 5)"
    by (simp add: process_self_base_def numeral_2_eq_2)
  have ct: "class_type ''B'' process_self_base = (1, process_self_base)"
    by (simp add: class_type_def process_self_base_def)
  have 3: "\<not> reaches (classes process_self_base) 1 bs 1" for bs
    by (induction bs) (auto simp: process_self_base_def descriptor_A_def deref_def)
  have 4: "cast n (classes process_self_base) 1 100 1 = OutOfFuel" for n
    by (induction n) (simp_all add: process_self_base_def descriptor_A_def deref_def)
  have 5: "fst (unwrap_object k n ''B'' (Object 5) process_self_base []) = OutOfFuel" for k n
  proof (cases k)
    case 0
    then show ?thesis by simp
  next
    case (Suc k')
    have ob: "js_objects process_self_base 5 = Some \<lparr>internal_fields = [100, 1], prototype = Object 1\<rparr>"
      by (simp add: process_self_base_def)
    show ?thesis unfolding Suc using ob ct 4 [of n] by simp
  qed
  from 1 2 ct 3 4 5 show ?thesis by blast
qed

end
